theory Spec2Isabelle
  imports Main "HOL-Library.Word"
begin

unbundle bit_operations_syntax

section \<open>Buffers\<close>

text \<open>
  A Node \<open>Buffer\<close> is a sequence of bytes. Slices share memory with their parent, but no
  code of the demuxers writes into a buffer, so a buffer is modelled by its value.
\<close>

type_synonym byte = "8 word"
type_synonym buffer = "byte list"

text \<open>\<open>Buffer.from(str)\<close> for an ASCII string.\<close>

definition ascii :: "string \<Rightarrow> buffer" where
  "ascii s = map (\<lambda>c. of_nat (of_char c)) s"

text \<open>
  \<open>buf.slice(start, end)\<close> with both bounds non-negative integers: the bounds are clamped
  to the length, and an end before the start gives the empty buffer.
\<close>

definition slice :: "buffer \<Rightarrow> nat \<Rightarrow> nat \<Rightarrow> buffer" where
  "slice b start end = take (end - start) (drop start b)"

section \<open>The Ogg page reader (src/opus/OggDemuxer.ts)\<close>

definition OGG_PAGE_HEADER_SIZE :: nat where
  "OGG_PAGE_HEADER_SIZE = 26"

definition STREAM_STRUCTURE_VERSION :: byte where
  "STREAM_STRUCTURE_VERSION = 0"

definition OGGS_HEADER :: buffer where
  "OGGS_HEADER = ascii ''OggS''"

definition OPUS_HEAD :: buffer where
  "OPUS_HEAD = ascii ''OpusHead''"

definition OPUS_TAGS :: buffer where
  "OPUS_TAGS = ascii ''OpusTag''"

text \<open>The private fields of \<open>OggDemuxer\<close>; \<open>None\<close> is \<open>undefined\<close>.\<close>

record ogg_state =
  o_remainder :: "buffer option"
  o_head :: "buffer option"
  o_bitstream :: "nat option"

definition ogg_init :: ogg_state where
  "ogg_init = \<lparr>o_remainder = None, o_head = None, o_bitstream = None\<rparr>"

text \<open>What the stream hands to its consumer: \<open>emit('tags' | 'head' | 'unknownSegment', segment)\<close>
  and \<open>push(segment)\<close>.\<close>

datatype ogg_event = Tags buffer | Head buffer | UnknownSegment buffer | Push buffer

datatype ogg_error = CapturePattern | StructureVersion

text \<open>\<open>chunk.readUInt32BE(i)\<close>; every call site has checked that the four bytes exist.\<close>

definition readUInt32BE :: "buffer \<Rightarrow> nat \<Rightarrow> nat" where
  "readUInt32BE b i =
     ((unat (b ! i) * 256 + unat (b ! (i + 1))) * 256 + unat (b ! (i + 2))) * 256 + unat (b ! (i + 3))"

text \<open>
  The lacing loops of \<open>_readPage\<close>. \<open>lacing t sz\<close> is the inner \<open>while (x === 255)\<close> loop
  with the table entries from index \<open>i\<close> on in \<open>t\<close>: an exhausted table is \<open>return false\<close>
  (\<open>None\<close>); an entry below 255 closes the segment, and the outer \<open>for\<close> loop starts the
  next one while entries remain.
\<close>

fun lacing :: "byte list \<Rightarrow> nat \<Rightarrow> nat list option" where
  "lacing [] sz = None"
| "lacing (x # t) sz =
     (if x = 255 then lacing t (sz + 255)
      else if t = [] then Some [sz + unat x]
      else map_option ((#) (sz + unat x)) (lacing t 0))"

definition readSizes :: "byte list \<Rightarrow> nat list option" where
  "readSizes table = (if table = [] then Some [] else lacing table 0)"

text \<open>The body of the \<open>for (const size of sizes)\<close> loop: one segment is classified.\<close>

definition routeSegment :: "nat \<Rightarrow> ogg_state \<Rightarrow> buffer \<Rightarrow> ogg_state \<times> ogg_event list" where
  "routeSegment bitstream st segment =
     (let header = slice segment 0 8 in
      case o_head st of
        Some h \<Rightarrow>
          (if header = OPUS_TAGS then (st, [Tags segment])
           else if o_bitstream st = Some bitstream then (st, [Push segment])
           else (st, []))
      | None \<Rightarrow>
          (if header = OPUS_HEAD
           then (st\<lparr>o_head := Some segment, o_bitstream := Some bitstream\<rparr>, [Head segment])
           else (st, [UnknownSegment segment])))"

fun routeSegments :: "buffer \<Rightarrow> nat \<Rightarrow> nat list \<Rightarrow> nat \<Rightarrow> ogg_state
    \<Rightarrow> ogg_state \<times> ogg_event list \<times> nat" where
  "routeSegments chunk bitstream [] start st = (st, [], start)"
| "routeSegments chunk bitstream (sz # sizes) start st =
     (case routeSegment bitstream st (slice chunk start (start + sz)) of
        (st1, ev) \<Rightarrow>
          (case routeSegments chunk bitstream sizes (start + sz) st1 of
             (st2, evs, start') \<Rightarrow> (st2, ev @ evs, start')))"

text \<open>
  \<open>_readPage\<close>: \<open>Inl\<close> is a thrown error, \<open>Inr None\<close> is \<open>false\<close> (not enough data), and
  \<open>Inr (Some (st, evs, rest))\<close> is the returned rest of the chunk, with the fields as the call
  left them and the events it emitted.
\<close>

definition readPage :: "ogg_state \<Rightarrow> buffer
    \<Rightarrow> ogg_error + (ogg_state \<times> ogg_event list \<times> buffer) option" where
  "readPage st chunk =
     (if length chunk < OGG_PAGE_HEADER_SIZE then Inr None
      else if slice chunk 0 4 \<noteq> OGGS_HEADER then Inl CapturePattern
      else if chunk ! 4 \<noteq> STREAM_STRUCTURE_VERSION then Inl StructureVersion
      else if length chunk < 27 then Inr None
      else
        let pageSegments = unat (chunk ! 26) in
        if length chunk < 27 + pageSegments then Inr None
        else
          let table = slice chunk 27 (27 + pageSegments);
              bitstream = readUInt32BE chunk 14
          in case readSizes table of
               None \<Rightarrow> Inr None
             | Some sizes \<Rightarrow>
                 if length chunk < 27 + pageSegments + sum_list sizes then Inr None
                 else
                   (case routeSegments chunk bitstream sizes (27 + pageSegments) st of
                      (st', evs, start) \<Rightarrow> Inr (Some (st', evs, drop start chunk))))"

lemma routeSegments_start:
  "routeSegments chunk bs sizes start st = (st', evs, start') \<Longrightarrow> start' = start + sum_list sizes"
proof (induction sizes arbitrary: start st st' evs start')
  case Nil
  then show ?case by simp
next
  case (Cons sz sizes)
  from Cons.prems obtain st1 evs2 where
    "routeSegments chunk bs sizes (start + sz) st1 = (st', evs2, start')"
    by (auto split: prod.splits)
  from Cons.IH [OF this] show ?case by simp
qed

lemma readPage_shorter:
  assumes "readPage st chunk = Inr (Some (st', evs, rest))"
  shows "length rest < length chunk"
  using assms
  by (auto simp: readPage_def Let_def OGG_PAGE_HEADER_SIZE_def
      split: if_splits option.splits prod.splits dest!: routeSegments_start)

text \<open>
  The \<open>while (chunk)\<close> loop of \<open>_transform\<close> (a buffer is always truthy). The events of the
  pages read so far are out when a later page throws.
\<close>

function pages :: "ogg_state \<Rightarrow> buffer \<Rightarrow> ogg_event list
    \<Rightarrow> ogg_event list \<times> (ogg_error + ogg_state \<times> buffer)" where
  "pages st chunk out =
     (case readPage st chunk of
        Inl e \<Rightarrow> (out, Inl e)
      | Inr None \<Rightarrow> (out, Inr (st, chunk))
      | Inr (Some (st', evs, rest)) \<Rightarrow> pages st' rest (out @ evs))"
  by pat_completeness auto
termination
  by (relation "measure (\<lambda>(st, chunk, out). length chunk)") (auto dest: readPage_shorter)

declare pages.simps [simp del]

definition ogg_transform :: "ogg_state \<Rightarrow> buffer \<Rightarrow> ogg_event list \<times> (ogg_error + ogg_state)" where
  "ogg_transform st chunk =
     (let chunk' = (case o_remainder st of Some r \<Rightarrow> r @ chunk | None \<Rightarrow> chunk) in
      case pages (st\<lparr>o_remainder := None\<rparr>) chunk' [] of
        (out, Inl e) \<Rightarrow> (out, Inl e)
      | (out, Inr (st', rest)) \<Rightarrow> (out, Inr (st'\<lparr>o_remainder := Some rest\<rparr>)))"

text \<open>Successive \<open>_transform\<close> calls, one per chunk; a thrown error ends the stream.\<close>

fun ogg_feed :: "ogg_state \<Rightarrow> buffer list \<Rightarrow> ogg_event list \<times> (ogg_error + ogg_state)" where
  "ogg_feed st [] = ([], Inr st)"
| "ogg_feed st (c # cs) =
     (case ogg_transform st c of
        (out, Inl e) \<Rightarrow> (out, Inl e)
      | (out, Inr st') \<Rightarrow> (case ogg_feed st' cs of (out', r) \<Rightarrow> (out @ out', r)))"

text \<open>The bytes held back from the previous call (\<open>undefined\<close> holds none).\<close>

definition pending :: "ogg_state \<Rightarrow> buffer" where
  "pending st = (case o_remainder st of None \<Rightarrow> [] | Some r \<Rightarrow> r)"

text \<open>\<open>cleanup\<close>, called by \<open>_destroy\<close> and \<open>_final\<close>; neither emits anything.\<close>

definition ogg_cleanup :: "ogg_state \<Rightarrow> ogg_state" where
  "ogg_cleanup st = st\<lparr>o_remainder := None, o_head := None, o_bitstream := None\<rparr>"

definition ogg_final :: "ogg_state \<Rightarrow> ogg_state \<times> ogg_event list" where
  "ogg_final st = (ogg_cleanup st, [])"

definition ogg_destroy :: "ogg_state \<Rightarrow> ogg_state \<times> ogg_event list" where
  "ogg_destroy st = (ogg_cleanup st, [])"


section \<open>JavaScript numbers and buffer accesses\<close>

text \<open>
  The EBML walker computes with JavaScript numbers. Every number it handles is an integer
  (far below \<open>2^53\<close>, so that the double arithmetic is exact) or \<open>NaN\<close>, which arises when
  \<open>undefined\<close> is added to a number. The operators \<open><<\<close> and \<open>&\<close> first convert their
  operands to 32-bit integers (\<open>ToInt32\<close>; \<open>NaN\<close> becomes 0) and give a signed 32-bit result;
  the shift count is taken modulo 32.
\<close>

datatype jsnum = Num int | NaN

definition ToInt32 :: "jsnum \<Rightarrow> 32 word" where
  "ToInt32 x = (case x of Num n \<Rightarrow> word_of_int n | NaN \<Rightarrow> 0)"

definition js_shl :: "jsnum \<Rightarrow> jsnum \<Rightarrow> jsnum" where
  "js_shl x n = Num (sint (push_bit (unat (ToInt32 n) mod 32) (ToInt32 x)))"

definition js_and :: "jsnum \<Rightarrow> jsnum \<Rightarrow> jsnum" where
  "js_and x y = Num (sint (ToInt32 x AND ToInt32 y))"

definition js_add :: "jsnum \<Rightarrow> jsnum \<Rightarrow> jsnum" where
  "js_add x y = (case (x, y) of (Num a, Num b) \<Rightarrow> Num (a + b) | _ \<Rightarrow> NaN)"

definition js_sub :: "jsnum \<Rightarrow> jsnum \<Rightarrow> jsnum" where
  "js_sub x y = (case (x, y) of (Num a, Num b) \<Rightarrow> Num (a - b) | _ \<Rightarrow> NaN)"

text \<open>\<open>x > y\<close>: false when either side is \<open>NaN\<close>.\<close>

definition js_gt :: "jsnum \<Rightarrow> jsnum \<Rightarrow> bool" where
  "js_gt x y = (case (x, y) of (Num a, Num b) \<Rightarrow> a > b | _ \<Rightarrow> False)"

text \<open>\<open>if (x)\<close> for a number: 0 and \<open>NaN\<close> are falsy.\<close>

definition truthy :: "jsnum \<Rightarrow> bool" where
  "truthy x = (case x of Num n \<Rightarrow> n \<noteq> 0 | NaN \<Rightarrow> False)"

text \<open>\<open>buffer[index]\<close>: \<open>undefined\<close> (\<open>None\<close>) outside the buffer.\<close>

definition buf_index :: "buffer \<Rightarrow> int \<Rightarrow> byte option" where
  "buf_index b i = (if 0 \<le> i \<and> i < int (length b) then Some (b ! nat i) else None)"

text \<open>\<open>ToNumber\<close> of a buffer access; \<open>undefined\<close> becomes \<open>NaN\<close>.\<close>

definition ToNumber :: "byte option \<Rightarrow> jsnum" where
  "ToNumber v = (case v of Some b \<Rightarrow> Num (uint b) | None \<Rightarrow> NaN)"

text \<open>
  \<open>Buffer.prototype.slice\<close> of Node: a negative bound counts from the end, \<open>NaN\<close> is 0, and
  both bounds are clamped to the buffer.
\<close>

definition adjustOffset :: "jsnum \<Rightarrow> int \<Rightarrow> int" where
  "adjustOffset offset len =
     (case offset of
        NaN \<Rightarrow> 0
      | Num off \<Rightarrow>
          if off = 0 then 0
          else if off < 0 then (if off + len > 0 then off + len else 0)
          else if off < len then off
          else len)"

definition js_slice :: "buffer \<Rightarrow> jsnum \<Rightarrow> jsnum \<Rightarrow> buffer" where
  "js_slice b start end =
     (let srcLength = int (length b);
          s = adjustOffset start srcLength;
          e = adjustOffset end srcLength;
          newLength = (if e > s then e - s else 0)
      in take (nat newLength) (drop (nat s) b))"

text \<open>\<open>buf.slice(start)\<close>: the end defaults to the length.\<close>

definition js_slice_from :: "buffer \<Rightarrow> jsnum \<Rightarrow> buffer" where
  "js_slice_from b start = js_slice b start (Num (int (length b)))"

section \<open>The EBML tag walker (\<open>WebmBaseDemuxer\<close>, src/opus/Opus.ts)\<close>

subsection \<open>Variable-length integers\<close>

text \<open>The \<open>for\<close> loop of \<open>vintLength\<close>, entered at \<open>i\<close>; \<open>b\<close> is \<open>buffer[index]\<close>.\<close>

function vintScan :: "jsnum \<Rightarrow> nat \<Rightarrow> nat" where
  "vintScan b i =
     (if i < 8
      then (if truthy (js_and (js_shl (Num 1) (Num (7 - int i))) b) then i else vintScan b (i + 1))
      else i)"
  by pat_completeness auto
termination
  by (relation "measure (\<lambda>(b, i). 8 - i)") auto

declare vintScan.simps [simp del]

text \<open>\<open>None\<close> is the \<open>TOO_SHORT\<close> symbol.\<close>

definition vintLength :: "buffer \<Rightarrow> int \<Rightarrow> int option" where
  "vintLength buffer index =
     (let i = int (vintScan (ToNumber (buf_index buffer index)) 0) + 1 in
      if index + i > int (length buffer) then None else Some i)"

text \<open>The \<open>for\<close> loop of \<open>expandVint\<close>.\<close>

function expandLoop :: "buffer \<Rightarrow> int \<Rightarrow> int \<Rightarrow> jsnum \<Rightarrow> jsnum" where
  "expandLoop buffer i end value =
     (if i < end
      then expandLoop buffer (i + 1) end
             (js_add (js_shl value (Num 8)) (ToNumber (buf_index buffer i)))
      else value)"
  by pat_completeness auto
termination
  by (relation "measure (\<lambda>(buffer, i, end, value). nat (end - i))") auto

declare expandLoop.simps [simp del]

definition expandVint :: "buffer \<Rightarrow> int \<Rightarrow> int \<Rightarrow> jsnum option" where
  "expandVint buffer start end =
     (case vintLength buffer start of
        None \<Rightarrow> None
      | Some len \<Rightarrow>
          if end > int (length buffer) then None
          else
            let mask = js_sub (js_shl (Num 1) (Num (8 - len))) (Num 1);
                value = js_and (ToNumber (buf_index buffer start)) mask
            in Some (expandLoop buffer (start + 1) end value))"

subsection \<open>State, tags and results\<close>

text \<open>
  \<open>Partial<Track>\<close>: a field is a byte read by \<open>data[0]\<close>, or \<open>undefined\<close>. The resolved
  track is the same object (\<open>this._incompleteTrack as Track\<close>); it is not written again once
  \<open>_track\<close> is set.
\<close>

record track =
  t_number :: "byte option"
  t_type :: "byte option"

definition no_track :: track where
  "no_track = \<lparr>t_number = None, t_type = None\<rparr>"

record webm_state =
  w_remainder :: "buffer option"
  w_length :: int
  w_count :: int
  w_skipUntil :: "int option"
  w_track :: "track option"
  w_incompleteTrack :: track
  w_ebmlFound :: bool

definition webm_init :: webm_state where
  "webm_init = \<lparr>w_remainder = None, w_length = 0, w_count = 0, w_skipUntil = None,
      w_track = None, w_incompleteTrack = no_track, w_ebmlFound = False\<rparr>"

datatype webm_error =
    NoEBMLTag \<comment> \<open>Did not find the EBML tag at the start of the stream\<close>
  | NoAudioTrack \<comment> \<open>No audio track in this webm!\<close>
  | NotImplemented \<comment> \<open>Method not implemented.\<close>
  | NotOpus \<comment> \<open>Audio codec is not Opus!\<close>
  | NotVorbis \<comment> \<open>Audio codec is not Vorbis!\<close>
  | RangeError \<comment> \<open>\<open>readUInt8\<close> outside the buffer\<close>

text \<open>
  The table \<open>TAGS\<close>. An ID is compared as its byte sequence: \<open>toString('hex')\<close> is
  one-to-one on buffers, and no other property name of an object is a hex string.
\<close>

definition EBML_ID :: buffer where "EBML_ID = [0x1a, 0x45, 0xdf, 0xa3]"
definition TRACK_ENTRY_ID :: buffer where "TRACK_ENTRY_ID = [0xae]"
definition TRACK_NUMBER_ID :: buffer where "TRACK_NUMBER_ID = [0xd7]"
definition TRACK_TYPE_ID :: buffer where "TRACK_TYPE_ID = [0x83]"
definition SIMPLE_BLOCK_ID :: buffer where "SIMPLE_BLOCK_ID = [0xa3]"
definition CODEC_PRIVATE_ID :: buffer where "CODEC_PRIVATE_ID = [0x63, 0xa2]"

definition TAGS :: "(buffer \<times> bool) list" where
  "TAGS =
     [(EBML_ID, True),
      ([0x18, 0x53, 0x80, 0x67], True),
      ([0x1f, 0x43, 0xb6, 0x75], True),
      ([0x16, 0x54, 0xae, 0x6b], True),
      (TRACK_ENTRY_ID, True),
      (TRACK_NUMBER_ID, False),
      (TRACK_TYPE_ID, False),
      (SIMPLE_BLOCK_ID, False),
      (CODEC_PRIVATE_ID, False)]"

text \<open>The interface \<open>Tag\<close>, or the symbol \<open>TOO_SHORT\<close>.\<close>

datatype tag_result = TOO_SHORT | Tag (tag_offset: jsnum) (tag_skipUntil: "jsnum option")

subsection \<open>Reading one tag\<close>

definition readEBMLId :: "buffer \<Rightarrow> int \<Rightarrow> (buffer \<times> int) option" where
  "readEBMLId chunk offset =
     (case vintLength chunk offset of
        None \<Rightarrow> None
      | Some idLength \<Rightarrow>
          Some (js_slice chunk (Num offset) (Num (offset + idLength)), offset + idLength))"

text \<open>The result is \<open>(offset, dataLength, sizeLength)\<close>.\<close>

definition readTagDataSize :: "buffer \<Rightarrow> int \<Rightarrow> (int \<times> jsnum \<times> int) option" where
  "readTagDataSize chunk offset =
     (case vintLength chunk offset of
        None \<Rightarrow> None
      | Some sizeLength \<Rightarrow>
          (case expandVint chunk offset (offset + sizeLength) of
             None \<Rightarrow> None
           | Some dataLength \<Rightarrow> Some (offset + sizeLength, dataLength, sizeLength)))"

text \<open>The block \<open>if (!this._track) { ... }\<close> of \<open>_readTag\<close>.\<close>

definition updateTrack :: "buffer \<Rightarrow> buffer \<Rightarrow> webm_state \<Rightarrow> webm_state" where
  "updateTrack ebmlID data st =
     (if w_track st \<noteq> None then st
      else
        let t0 = w_incompleteTrack st;
            t1 = (if ebmlID = TRACK_ENTRY_ID then no_track else t0);
            t2 = (if ebmlID = TRACK_NUMBER_ID then t1\<lparr>t_number := buf_index data 0\<rparr> else t1);
            t3 = (if ebmlID = TRACK_TYPE_ID then t2\<lparr>t_type := buf_index data 0\<rparr> else t2);
            st' = st\<lparr>w_incompleteTrack := t3\<rparr>
        in if t_type t3 = Some 2 \<and> t_number t3 \<noteq> None then st'\<lparr>w_track := Some t3\<rparr> else st')"

text \<open>
  \<open>_readTag\<close>, with the hook \<open>_checkHead\<close> of the subclass as a parameter: the hook throws or
  pushes packets. \<open>Inl\<close> is a thrown error; otherwise the fields as the call left them, the
  packets pushed and the returned value.
\<close>

type_synonym check_head = "buffer \<Rightarrow> webm_error + buffer list"

definition readTag :: "check_head \<Rightarrow> webm_state \<Rightarrow> buffer \<Rightarrow> int
    \<Rightarrow> webm_error + (webm_state \<times> buffer list \<times> tag_result)" where
  "readTag checkHead st chunk offset =
     (case readEBMLId chunk offset of
        None \<Rightarrow> Inr (st, [], TOO_SHORT)
      | Some (ebmlID, offset1) \<Rightarrow>
          if \<not> w_ebmlFound st \<and> ebmlID \<noteq> EBML_ID then Inl NoEBMLTag
          else
            let st1 = st\<lparr>w_ebmlFound := True\<rparr> in
            (case readTagDataSize chunk offset1 of
               None \<Rightarrow> Inr (st1, [], TOO_SHORT)
             | Some (offset2, dataLength, sizeLength) \<Rightarrow>
                 (case map_of TAGS ebmlID of
                    None \<Rightarrow>
                      if js_gt (Num (int (length chunk))) (js_add (Num offset2) dataLength)
                      then Inr (st1, [], Tag (js_add (Num offset2) dataLength) None)
                      else Inr (st1, [], Tag (Num offset2)
                                  (Some (js_add (Num (w_count st1 + offset2)) dataLength)))
                  | Some True \<Rightarrow> Inr (st1, [], Tag (Num offset2) None)
                  | Some False \<Rightarrow>
                      if js_gt (js_add (Num offset2) dataLength) (Num (int (length chunk)))
                      then Inr (st1, [], TOO_SHORT)
                      else
                        let data = js_slice chunk (Num offset2) (js_add (Num offset2) dataLength);
                            st2 = updateTrack ebmlID data st1;
                            next = Tag (js_add (Num offset2) dataLength) None
                        in
                        if ebmlID = CODEC_PRIVATE_ID then
                          (case checkHead data of
                             Inl e \<Rightarrow> Inl e
                           | Inr packets \<Rightarrow> Inr (st2, packets, next))
                        else if ebmlID = SIMPLE_BLOCK_ID then
                          (case w_track st2 of
                             None \<Rightarrow> Inl NoAudioTrack
                           | Some tr \<Rightarrow>
                               if map_option Num (map_option uint (t_number tr))
                                    = Some (js_and (ToNumber (buf_index data 0)) (Num 15))
                               then Inr (st2, [js_slice_from data (Num 4)], next)
                               else Inr (st2, [], next))
                        else Inr (st2, [], next))))"

subsection \<open>The stream\<close>

text \<open>
  The \<open>while\<close> loop of \<open>_transform\<close>. It need not terminate (a size field can decode to a
  negative number and send the cursor backwards), so it is a partial function: \<open>None\<close> is a
  loop that runs forever. A result is the packets pushed and either a thrown error or the
  fields and the final \<open>offset\<close>.
\<close>

partial_function (option) tagLoop :: "check_head \<Rightarrow> webm_state \<Rightarrow> buffer \<Rightarrow> int \<Rightarrow> buffer list
    \<Rightarrow> (buffer list \<times> (webm_error + webm_state \<times> int)) option" where
  [code]: "tagLoop checkHead st chunk offset out =
     (case readTag checkHead st chunk offset of
        Inl e \<Rightarrow> Some (out, Inl e)
      | Inr (st1, packets, result) \<Rightarrow>
          (case result of
             TOO_SHORT \<Rightarrow> Some (out @ packets, Inr (st1, offset))
           | Tag off skip \<Rightarrow>
               if (case skip of Some t \<Rightarrow> truthy t | None \<Rightarrow> False)
               then Some (out @ packets,
                      Inr (st1\<lparr>w_skipUntil := (case skip of Some (Num t) \<Rightarrow> Some t | _ \<Rightarrow> None)\<rparr>, offset))
               else if truthy off
               then tagLoop checkHead st1 chunk (case off of Num n \<Rightarrow> n | NaN \<Rightarrow> 0) (out @ packets)
               else Some (out @ packets, Inr (st1, offset))))"

text \<open>The end of \<open>_transform\<close>: \<open>this._count += offset; this._remainder = chunk.slice(offset)\<close>.\<close>

definition walk :: "check_head \<Rightarrow> webm_state \<Rightarrow> buffer \<Rightarrow> int
    \<Rightarrow> (buffer list \<times> (webm_error + webm_state)) option" where
  "walk checkHead st chunk offset =
     (case tagLoop checkHead st chunk offset [] of
        None \<Rightarrow> None
      | Some (out, Inl e) \<Rightarrow> Some (out, Inl e)
      | Some (out, Inr (st', offset')) \<Rightarrow>
          Some (out, Inr (st'\<lparr>w_count := w_count st' + offset',
                              w_remainder := Some (js_slice_from chunk (Num offset'))\<rparr>)))"

definition webm_transform :: "check_head \<Rightarrow> webm_state \<Rightarrow> buffer
    \<Rightarrow> (buffer list \<times> (webm_error + webm_state)) option" where
  "webm_transform checkHead st chunk0 =
     (let st1 = st\<lparr>w_length := w_length st + int (length chunk0)\<rparr>;
          chunk = (case w_remainder st1 of Some r \<Rightarrow> r @ chunk0 | None \<Rightarrow> chunk0);
          st2 = st1\<lparr>w_remainder := None\<rparr>
      in case w_skipUntil st2 of
           None \<Rightarrow> walk checkHead st2 chunk 0
         | Some t \<Rightarrow>
             if t \<noteq> 0 \<and> w_length st2 > t
             then walk checkHead (st2\<lparr>w_skipUntil := None\<rparr>) chunk (t - w_count st2)
             else if t \<noteq> 0
             then Some ([], Inr (st2\<lparr>w_count := w_count st2 + int (length chunk)\<rparr>))
             else walk checkHead st2 chunk 0)"

text \<open>Successive \<open>_transform\<close> calls, one per chunk; a thrown error ends the stream.\<close>

fun webm_feed :: "check_head \<Rightarrow> webm_state \<Rightarrow> buffer list
    \<Rightarrow> (buffer list \<times> (webm_error + webm_state)) option" where
  "webm_feed checkHead st [] = Some ([], Inr st)"
| "webm_feed checkHead st (c # cs) =
     (case webm_transform checkHead st c of
        None \<Rightarrow> None
      | Some (out, Inl e) \<Rightarrow> Some (out, Inl e)
      | Some (out, Inr st') \<Rightarrow>
          (case webm_feed checkHead st' cs of
             None \<Rightarrow> None
           | Some (out', r) \<Rightarrow> Some (out @ out', r)))"

text \<open>\<open>cleanup\<close>, called by \<open>_destroy\<close> and \<open>_final\<close>; neither pushes anything.\<close>

definition webm_cleanup :: "webm_state \<Rightarrow> webm_state" where
  "webm_cleanup st = st\<lparr>w_remainder := None, w_incompleteTrack := no_track\<rparr>"

definition webm_final :: "webm_state \<Rightarrow> webm_state \<times> buffer list" where
  "webm_final st = (webm_cleanup st, [])"

definition webm_destroy :: "webm_state \<Rightarrow> webm_state \<times> buffer list" where
  "webm_destroy st = (webm_cleanup st, [])"

subsection \<open>The hooks \<open>_checkHead\<close>\<close>

text \<open>\<open>data.readUInt8(i)\<close> throws outside the buffer.\<close>

definition readUInt8 :: "buffer \<Rightarrow> nat \<Rightarrow> webm_error + byte" where
  "readUInt8 b i = (if i < length b then Inr (b ! i) else Inl RangeError)"

definition VORBIS_HEAD :: buffer where
  "VORBIS_HEAD = ascii ''vorbis''"

definition base_checkHead :: check_head where
  "base_checkHead data = Inl NotImplemented"

definition opus_checkHead :: check_head where
  "opus_checkHead data = (if slice data 0 8 \<noteq> OPUS_HEAD then Inl NotOpus else Inr [])"

text \<open>
  The Vorbis \<open>WebmDemuxer\<close>. After the check the buffer has 10 bytes or more, so that the
  \<open>readUInt8\<close> calls inside the three \<open>push\<close> calls cannot throw between two pushes.
\<close>

definition vorbis_checkHead :: check_head where
  "vorbis_checkHead data =
     (case readUInt8 data 0 of
        Inl e \<Rightarrow> Inl e
      | Inr b0 \<Rightarrow>
          if b0 \<noteq> 2 \<or> slice data 4 10 \<noteq> VORBIS_HEAD then Inl NotVorbis
          else
            (case readUInt8 data 1 of
               Inl e \<Rightarrow> Inl e
             | Inr b1 \<Rightarrow>
                 (case readUInt8 data 2 of
                    Inl e \<Rightarrow> Inl e
                  | Inr b2 \<Rightarrow>
                      Inr [slice data 3 (3 + unat b1),
                           slice data (3 + unat b1) (3 + unat b1 + unat b2),
                           drop (3 + unat b1 + unat b2) data])))"

subsection \<open>Streams that the walker can cross\<close>

text \<open>
  \<open>walkable chunk offset\<close>: in the walk of the elements of \<open>chunk\<close> from \<open>offset\<close> on (into
  a container, over a leaf or an unknown element whose body is in the buffer), every size
  field of a leaf or of an unknown element decodes to a non-negative number, so that the
  cursor never moves backwards. Sizes of \<open>2^31\<close> or more fail this, as \<open>expandVint\<close> wraps
  them; the size of a container is not looked at (its value is not used by \<open>_readTag\<close>).
\<close>

function walkable :: "buffer \<Rightarrow> int \<Rightarrow> bool" where
  "walkable chunk offset =
     (if offset < 0 then False
      else
        (case readEBMLId chunk offset of
           None \<Rightarrow> True
         | Some (ebmlID, offset1) \<Rightarrow>
             (case readTagDataSize chunk offset1 of
                None \<Rightarrow> True
              | Some (offset2, dataLength, sizeLength) \<Rightarrow>
                  if map_of TAGS ebmlID = Some True then walkable chunk offset2
                  else
                    (case dataLength of
                       NaN \<Rightarrow> False
                     | Num d \<Rightarrow>
                         if d < 0 then False
                         else if offset2 + d \<le> int (length chunk) then walkable chunk (offset2 + d)
                         else True))))"
  by pat_completeness auto
termination
proof (relation "measure (\<lambda>(chunk, offset). nat (int (length chunk) - offset))", goal_cases)
  case 1
  show ?case by simp
next
  case (2 chunk offset x2 ebmlID offset1 x2a offset2 y dataLength sizeLength)
  then show ?case
    by (auto simp: readEBMLId_def readTagDataSize_def vintLength_def Let_def
        split: option.splits if_splits)
next
  case (3 chunk offset x2 ebmlID offset1 x2a offset2 y dataLength sizeLength d)
  then show ?case
    by (auto simp: readEBMLId_def readTagDataSize_def vintLength_def Let_def
        split: option.splits if_splits)
qed

declare walkable.simps [simp del]

text \<open>What the consumer of the stream sees: the packets pushed and the error thrown, if any.\<close>

definition observed :: "(buffer list \<times> (webm_error + 'a)) option
    \<Rightarrow> (buffer list \<times> webm_error option) option" where
  "observed r =
     map_option (\<lambda>(out, x). (out, case x of Inl e \<Rightarrow> Some e | Inr s \<Rightarrow> None)) r"

section \<open>Notions used in the proofs\<close>

text \<open>The bytes that a walker holds back (\<open>undefined\<close> holds none).\<close>

definition wpending :: "webm_state \<Rightarrow> buffer" where
  "wpending st = (case w_remainder st of None \<Rightarrow> [] | Some r \<Rightarrow> r)"

text \<open>
  The part of \<open>_readTag\<close> that follows the two header fields, as a function of its own, and
  an offset moved by \<open>k\<close> in a result of \<open>_readTag\<close>.
\<close>

definition tagBody :: "check_head \<Rightarrow> webm_state \<Rightarrow> buffer \<Rightarrow> buffer \<Rightarrow> int \<Rightarrow> jsnum
    \<Rightarrow> webm_error + (webm_state \<times> buffer list \<times> tag_result)" where
  "tagBody checkHead st1 chunk ebmlID offset2 dataLength =
     (case map_of TAGS ebmlID of
        None \<Rightarrow>
          if js_gt (Num (int (length chunk))) (js_add (Num offset2) dataLength)
          then Inr (st1, [], Tag (js_add (Num offset2) dataLength) None)
          else Inr (st1, [], Tag (Num offset2)
                      (Some (js_add (Num (w_count st1 + offset2)) dataLength)))
      | Some True \<Rightarrow> Inr (st1, [], Tag (Num offset2) None)
      | Some False \<Rightarrow>
          if js_gt (js_add (Num offset2) dataLength) (Num (int (length chunk)))
          then Inr (st1, [], TOO_SHORT)
          else
            let data = js_slice chunk (Num offset2) (js_add (Num offset2) dataLength);
                st2 = updateTrack ebmlID data st1;
                next = Tag (js_add (Num offset2) dataLength) None
            in
            if ebmlID = CODEC_PRIVATE_ID then
              (case checkHead data of
                 Inl e \<Rightarrow> Inl e
               | Inr packets \<Rightarrow> Inr (st2, packets, next))
            else if ebmlID = SIMPLE_BLOCK_ID then
              (case w_track st2 of
                 None \<Rightarrow> Inl NoAudioTrack
               | Some tr \<Rightarrow>
                   if map_option Num (map_option uint (t_number tr))
                        = Some (js_and (ToNumber (buf_index data 0)) (Num 15))
                   then Inr (st2, [js_slice_from data (Num 4)], next)
                   else Inr (st2, [], next))
            else Inr (st2, [], next))"

fun shift_tag :: "int \<Rightarrow> tag_result \<Rightarrow> tag_result" where
  "shift_tag k TOO_SHORT = TOO_SHORT"
| "shift_tag k (Tag off skip) = Tag (js_add off (Num k)) skip"

text \<open>The fields that \<open>_readTag\<close> never writes, set all at once.\<close>

definition refield :: "int \<Rightarrow> int \<Rightarrow> buffer option \<Rightarrow> webm_state \<Rightarrow> webm_state" where
  "refield a l r s = s\<lparr>w_count := a, w_length := l, w_remainder := r\<rparr>"

text \<open>
  \<open>consistent st P\<close>: the fields of the walker fit the bytes \<open>P\<close> received so far. The
  count of consumed bytes lies inside \<open>P\<close>, the held bytes are the bytes of \<open>P\<close> from there on,
  and a pending skip target is positive and not yet reached.
\<close>

definition consistent :: "webm_state \<Rightarrow> buffer \<Rightarrow> bool" where
  "consistent st P \<longleftrightarrow>
     w_length st = int (length P) \<and> 0 \<le> w_count st \<and> w_count st \<le> int (length P) \<and>
     wpending st = drop (nat (w_count st)) P \<and>
     (case w_skipUntil st of None \<Rightarrow> True | Some t \<Rightarrow> 0 < t \<and> int (length P) \<le> t)"

text \<open>
  \<open>ahead st S\<close>: the whole stream \<open>S\<close> is walkable from the place where the walker will
  read its next tag. \<open>absolute s\<close> is the state of a walk over the whole stream, where
  offsets are positions in the stream, and \<open>rest_of\<close> is what such a walk shows to the
  consumer from the place of \<open>st\<close> on, after the packets \<open>out\<close>.
\<close>

definition ahead :: "webm_state \<Rightarrow> buffer \<Rightarrow> bool" where
  "ahead st S \<longleftrightarrow>
     (case w_skipUntil st of
        None \<Rightarrow> walkable S (w_count st)
      | Some t \<Rightarrow> int (length S) > t \<longrightarrow> walkable S t)"

definition absolute :: "webm_state \<Rightarrow> webm_state" where
  "absolute s = refield 0 0 None (s\<lparr>w_skipUntil := None\<rparr>)"

definition rest_of :: "check_head \<Rightarrow> webm_state \<Rightarrow> buffer \<Rightarrow> buffer list
    \<Rightarrow> (buffer list \<times> webm_error option) option" where
  "rest_of ch st S out =
     (case w_skipUntil st of
        None \<Rightarrow> observed (tagLoop ch (absolute st) S (w_count st) out)
      | Some t \<Rightarrow>
          if int (length S) > t then observed (tagLoop ch (absolute st) S t out)
          else Some (out, None))"

text \<open>
  While no track is resolved, the descriptor in progress is not a complete audio track.
\<close>

definition track_inv :: "webm_state \<Rightarrow> bool" where
  "track_inv st \<longleftrightarrow>
     (w_track st = None \<longrightarrow>
        \<not> (t_type (w_incompleteTrack st) = Some 2 \<and> t_number (w_incompleteTrack st) \<noteq> None))"

section \<open>Example streams\<close>

text \<open>
  Two Ogg pages of bitstream 7: the identification page, with the one segment \<open>OpusHead\<close>,
  and a comment page, whose one segment is a comment header with an empty vendor string and
  no comments.
\<close>

definition head_page :: buffer where
  "head_page = ascii ''OggS'' @ [0, 2, 0,0,0,0,0,0,0,0, 0,0,0,7, 0,0,0,0, 0,0,0,0, 1, 8]
     @ ascii ''OpusHead''"

definition tags_page :: buffer where
  "tags_page = ascii ''OggS'' @ [0, 0, 0,0,0,0,0,0,0,0, 0,0,0,7, 0,0,0,1, 0,0,0,0, 1, 16]
     @ ascii ''OpusTags'' @ [0,0,0,0, 0,0,0,0]"

text \<open>
  The header of a page whose table \<open>[3, 255]\<close> ends inside a lacing run: the second packet
  continues on the next page.
\<close>

definition open_page :: buffer where
  "open_page = ascii ''OggS'' @ [0, 0, 0,0,0,0,0,0,0,0, 0,0,0,7, 0,0,0,1, 0,0,0,0, 2, 3, 255]"

text \<open>
  A WebM stream with two track entries and two blocks: the root element; \<open>Tracks\<close>; an
  entry with number 1 and type 1 (video); an entry with type 2 (audio) written before its
  number 2; a block of track 1 with payload \<open>0x11\<close> and a block of track 2 with payload
  \<open>0x22\<close>.
\<close>

definition two_entries :: buffer where
  "two_entries = [0x1a, 0x45, 0xdf, 0xa3, 0x80,
                  0x16, 0x54, 0xae, 0x6b, 0x90,
                  0xae, 0x86, 0xd7, 0x81, 0x01, 0x83, 0x81, 0x01,
                  0xae, 0x86, 0x83, 0x81, 0x02, 0xd7, 0x81, 0x02,
                  0xa3, 0x85, 0x81, 0, 0, 0x80, 0x11,
                  0xa3, 0x85, 0x82, 0, 0, 0x80, 0x22]"

text \<open>
  The fields of a WebM walker that has read the root element, a track number 1, a track
  type 2 and the head of an unknown element of 5 bytes of which one byte has arrived.
\<close>

definition skipping_state :: webm_state where
  "skipping_state = \<lparr>w_remainder = Some [0xec, 0x85, 0x00], w_length = 14, w_count = 11,
      w_skipUntil = Some 18, w_track = Some \<lparr>t_number = Some 1, t_type = Some 2\<rparr>,
      w_incompleteTrack = \<lparr>t_number = Some 1, t_type = Some 2\<rparr>, w_ebmlFound = True\<rparr>"


text \<open>
  A WebM stream with an unknown element between the track fields and a block: the root
  element, track number 1, track type 2, an element \<open>ec\<close> of 3 bytes, and a block of track 1
  with payload \<open>0xaa\<close>.
\<close>

definition skip_stream :: buffer where
  "skip_stream = [0x1a, 0x45, 0xdf, 0xa3, 0x80,
                  0xd7, 0x81, 0x01, 0x83, 0x81, 0x02,
                  0xec, 0x83, 0x07, 0x08, 0x09,
                  0xa3, 0x85, 0x81, 0, 0, 0x80, 0xaa]"

text \<open>The fields of a walker that has read the root element and nothing else.\<close>

definition rooted :: webm_state where
  "rooted = \<lparr>w_remainder = Some [], w_length = 5, w_count = 5, w_skipUntil = None,
      w_track = None, w_incompleteTrack = no_track, w_ebmlFound = True\<rparr>"






section \<open>Properties of the Ogg page reader\<close>

subsection \<open>A page is read from a prefix of the stream\<close>

lemma lacing_last_255: "t \<noteq> [] \<Longrightarrow> last t = 255 \<Longrightarrow> lacing t sz = None"
  by (induction t arbitrary: sz) auto

lemma slice_append: "e \<le> length xs \<Longrightarrow> slice (xs @ ys) s e = slice xs s e"
  by (simp add: slice_def)

lemma routeSegments_append:
  "start + sum_list sizes \<le> length xs \<Longrightarrow>
   routeSegments (xs @ ys) bs sizes start st = routeSegments xs bs sizes start st"
  by (induction sizes arbitrary: start st) (auto simp: slice_append split: prod.splits)

lemma readUInt32BE_append: "i + 3 < length xs \<Longrightarrow> readUInt32BE (xs @ ys) i = readUInt32BE xs i"
  by (simp add: readUInt32BE_def nth_append)

lemma readPage_SomeD:
  assumes "readPage st xs = Inr (Some (st', evs, rest))"
  shows "\<exists>sizes. 27 \<le> length xs \<and> slice xs 0 4 = OGGS_HEADER \<and> xs ! 4 = STREAM_STRUCTURE_VERSION
     \<and> 27 + unat (xs ! 26) \<le> length xs
     \<and> readSizes (slice xs 27 (27 + unat (xs ! 26))) = Some sizes
     \<and> 27 + unat (xs ! 26) + sum_list sizes \<le> length xs
     \<and> routeSegments xs (readUInt32BE xs 14) sizes (27 + unat (xs ! 26)) st
           = (st', evs, 27 + unat (xs ! 26) + sum_list sizes)
     \<and> rest = drop (27 + unat (xs ! 26) + sum_list sizes) xs"
proof -
  from assms obtain sizes start where
    a: "27 \<le> length xs" "slice xs 0 4 = OGGS_HEADER" "xs ! 4 = STREAM_STRUCTURE_VERSION"
       "27 + unat (xs ! 26) \<le> length xs"
       "readSizes (slice xs 27 (27 + unat (xs ! 26))) = Some sizes"
       "27 + unat (xs ! 26) + sum_list sizes \<le> length xs"
    and b: "routeSegments xs (readUInt32BE xs 14) sizes (27 + unat (xs ! 26)) st = (st', evs, start)"
    and c: "rest = drop start xs"
    by (auto simp: readPage_def Let_def OGG_PAGE_HEADER_SIZE_def
        split: if_splits option.splits prod.splits)
  from routeSegments_start [OF b] have "start = 27 + unat (xs ! 26) + sum_list sizes" .
  with a b c show ?thesis by blast
qed

lemma readPage_append_Some:
  assumes "readPage st xs = Inr (Some (st', evs, rest))"
  shows "readPage st (xs @ ys) = Inr (Some (st', evs, rest @ ys))"
proof -
  from readPage_SomeD [OF assms] obtain sizes where
    a: "27 \<le> length xs" "slice xs 0 4 = OGGS_HEADER" "xs ! 4 = STREAM_STRUCTURE_VERSION"
       "27 + unat (xs ! 26) \<le> length xs"
       "readSizes (slice xs 27 (27 + unat (xs ! 26))) = Some sizes"
       "27 + unat (xs ! 26) + sum_list sizes \<le> length xs"
       "routeSegments xs (readUInt32BE xs 14) sizes (27 + unat (xs ! 26)) st
           = (st', evs, 27 + unat (xs ! 26) + sum_list sizes)"
       "rest = drop (27 + unat (xs ! 26) + sum_list sizes) xs"
    by blast
  from a show ?thesis
    by (simp add: readPage_def Let_def OGG_PAGE_HEADER_SIZE_def slice_append nth_append
      routeSegments_append readUInt32BE_append)
qed

lemma readPage_append_Inl:
  assumes "readPage st xs = Inl e"
  shows "readPage st (xs @ ys) = Inl e"
  using assms
  by (auto simp: readPage_def Let_def OGG_PAGE_HEADER_SIZE_def slice_append nth_append
      split: if_splits option.splits prod.splits)

lemma pages_out: "pages st c out = (out @ fst (pages st c []), snd (pages st c []))"
proof (induction "length c" arbitrary: st c out rule: less_induct)
  case less
  show ?case
  proof (cases "readPage st c")
    case (Inl e)
    then show ?thesis by (simp add: pages.simps)
  next
    case (Inr r)
    show ?thesis
    proof (cases r)
      case None
      with Inr show ?thesis by (simp add: pages.simps)
    next
      case (Some t)
      obtain st' evs rest where t: "t = (st', evs, rest)" by (cases t)
      have rp: "readPage st c = Inr (Some (st', evs, rest))" using Inr Some t by simp
      have a: "pages st c out = pages st' rest (out @ evs)"
        using rp by (simp add: pages.simps [of st c])
      have b: "pages st c [] = pages st' rest evs"
        using rp by (simp add: pages.simps [of st c])
      have sh: "length rest < length c" using rp by (rule readPage_shorter)
      show ?thesis
        unfolding a b
        by (subst less [OF sh], subst (2 3) less [OF sh]) simp
    qed
  qed
qed

lemma pages_append:
  "pages st (xs @ ys) out =
     (case pages st xs out of
        (out', Inl e) \<Rightarrow> (out', Inl e)
      | (out', Inr (st', rest)) \<Rightarrow> pages st' (rest @ ys) out')"
proof (induction st xs out rule: pages.induct)
  case (1 st chunk out)
  show ?case
  proof (cases "readPage st chunk")
    case (Inl e)
    then show ?thesis
      by (simp add: pages.simps [of st chunk] pages.simps [of st "chunk @ ys"] readPage_append_Inl)
  next
    case (Inr r)
    show ?thesis
    proof (cases r)
      case None
      with Inr show ?thesis by (simp add: pages.simps [of st chunk])
    next
      case (Some t)
      obtain st' evs rest where t: "t = (st', evs, rest)" by (cases t)
      have rp: "readPage st chunk = Inr (Some (st', evs, rest))" using Inr Some t by simp
      have ih: "pages st' (rest @ ys) (out @ evs) =
         (case pages st' rest (out @ evs) of
            (out', Inl e) \<Rightarrow> (out', Inl e)
          | (out', Inr (st', rest)) \<Rightarrow> pages st' (rest @ ys) out')"
        using "1.IH" Inr Some t by simp
      show ?thesis
        using rp ih
        by (simp add: pages.simps [of st chunk] pages.simps [of st "chunk @ ys"] readPage_append_Some)
    qed
  qed
qed

lemma routeSegment_remainder:
  "routeSegment bs st seg = (st', ev) \<Longrightarrow> o_remainder st' = o_remainder st"
  by (auto simp: routeSegment_def Let_def split: option.splits if_splits)

lemma routeSegments_remainder:
  "routeSegments chunk bs sizes start st = (st', evs, start') \<Longrightarrow> o_remainder st' = o_remainder st"
proof (induction sizes arbitrary: start st st' evs start')
  case Nil
  then show ?case by simp
next
  case (Cons sz sizes)
  from Cons.prems obtain st1 ev st2 evs2 where
    a: "routeSegment bs st (slice chunk start (start + sz)) = (st1, ev)" and
    b: "routeSegments chunk bs sizes (start + sz) st1 = (st', evs2, start')"
    by (auto split: prod.splits)
  from Cons.IH [OF b] routeSegment_remainder [OF a] show ?case by simp
qed

lemma readPage_remainder:
  assumes "readPage st xs = Inr (Some (st', evs, rest))"
  shows "o_remainder st' = o_remainder st"
  using readPage_SomeD [OF assms] routeSegments_remainder by blast

lemma pages_remainder:
  "pages st c out = (out', Inr (st', rest)) \<Longrightarrow> o_remainder st' = o_remainder st"
proof (induction st c out rule: pages.induct)
  case (1 st chunk out)
  show ?case
  proof (cases "readPage st chunk")
    case (Inl e)
    with "1.prems" show ?thesis by (simp add: pages.simps [of st chunk])
  next
    case (Inr r)
    show ?thesis
    proof (cases r)
      case None
      with Inr "1.prems" show ?thesis by (simp add: pages.simps [of st chunk])
    next
      case (Some t)
      obtain st1 evs rest1 where t: "t = (st1, evs, rest1)" by (cases t)
      have rp: "readPage st chunk = Inr (Some (st1, evs, rest1))" using Inr Some t by simp
      have "pages st1 rest1 (out @ evs) = (out', Inr (st', rest))"
        using "1.prems" rp by (simp add: pages.simps [of st chunk])
      then have "o_remainder st' = o_remainder st1"
        using "1.IH" Inr Some t by simp
      with readPage_remainder [OF rp] show ?thesis by simp
    qed
  qed
qed

lemma ogg_transform_alt:
  "ogg_transform st c =
     (case pages (st\<lparr>o_remainder := None\<rparr>) (pending st @ c) [] of
        (out, Inl e) \<Rightarrow> (out, Inl e)
      | (out, Inr (st', rest)) \<Rightarrow> (out, Inr (st'\<lparr>o_remainder := Some rest\<rparr>)))"
  by (simp add: ogg_transform_def pending_def split: option.splits)

lemma ogg_transform_append:
  "ogg_transform st (x @ y) =
     (case ogg_transform st x of
        (out, Inl e) \<Rightarrow> (out, Inl e)
      | (out, Inr st') \<Rightarrow> (case ogg_transform st' y of (out', r) \<Rightarrow> (out @ out', r)))"
proof -
  obtain out r where p: "pages (st\<lparr>o_remainder := None\<rparr>) (pending st @ x) [] = (out, r)"
    by (cases "pages (st\<lparr>o_remainder := None\<rparr>) (pending st @ x) []")
  have q: "pages (st\<lparr>o_remainder := None\<rparr>) (pending st @ x @ y) [] =
     (case r of Inl e \<Rightarrow> (out, Inl e) | Inr (st', rest) \<Rightarrow> pages st' (rest @ y) out)"
    using pages_append [of "st\<lparr>o_remainder := None\<rparr>" "pending st @ x" y "[]"] p
    by (simp split: sum.splits prod.splits)
  show ?thesis
  proof (cases r)
    case (Inl e)
    with p q show ?thesis by (simp add: ogg_transform_alt)
  next
    case (Inr sr)
    obtain st' rest where sr: "sr = (st', rest)" by (cases sr)
    have o: "pages st' (rest @ y) out = (out @ fst (pages st' (rest @ y) []), snd (pages st' (rest @ y) []))"
      by (rule pages_out)
    have "o_remainder st' = None"
      using pages_remainder [of "st\<lparr>o_remainder := None\<rparr>"] p Inr sr by simp
    then have n: "st'\<lparr>o_remainder := None\<rparr> = st'" by simp
    have t1: "ogg_transform st x = (out, Inr (st'\<lparr>o_remainder := Some rest\<rparr>))"
      using p Inr sr by (simp add: ogg_transform_alt)
    have t2: "ogg_transform (st'\<lparr>o_remainder := Some rest\<rparr>) y =
       (case pages st' (rest @ y) [] of
        (out, Inl e) \<Rightarrow> (out, Inl e)
      | (out, Inr (st', rest)) \<Rightarrow> (out, Inr (st'\<lparr>o_remainder := Some rest\<rparr>)))"
      using n by (simp add: ogg_transform_alt pending_def)
    have t3: "ogg_transform st (x @ y) =
       (case pages st' (rest @ y) out of
        (out, Inl e) \<Rightarrow> (out, Inl e)
      | (out, Inr (st', rest)) \<Rightarrow> (out, Inr (st'\<lparr>o_remainder := Some rest\<rparr>)))"
      using q Inr sr by (simp add: ogg_transform_alt)
    show ?thesis
      unfolding t3 t1 o
      by (simp add: t2 split: prod.splits sum.splits)
  qed
qed

lemma ogg_feed_concat: "ogg_feed st (c # cs) = ogg_transform st (concat (c # cs))"
proof (induction cs arbitrary: st c)
  case Nil
  show ?case by (simp split: prod.splits sum.splits)
next
  case (Cons d ds)
  have "ogg_feed st (c # d # ds) =
     (case ogg_transform st c of
        (out, Inl e) \<Rightarrow> (out, Inl e)
      | (out, Inr st') \<Rightarrow> (case ogg_feed st' (d # ds) of (out', r) \<Rightarrow> (out @ out', r)))"
    by (rule ogg_feed.simps)
  also have "\<dots> =
     (case ogg_transform st c of
        (out, Inl e) \<Rightarrow> (out, Inl e)
      | (out, Inr st') \<Rightarrow> (case ogg_transform st' (concat (d # ds)) of (out', r) \<Rightarrow> (out @ out', r)))"
    by (simp only: Cons.IH)
  also have "\<dots> = ogg_transform st (c @ concat (d # ds))"
    by (rule ogg_transform_append [symmetric])
  finally show ?case by simp
qed


lemma pages_stall: "readPage st c = Inr None \<Longrightarrow> pages st c out = (out, Inr (st, c))"
  by (simp add: pages.simps [of st c])

lemma ogg_transform_stall:
  "readPage (st\<lparr>o_remainder := None\<rparr>) (pending st @ c) = Inr None \<Longrightarrow>
   ogg_transform st c = ([], Inr (st\<lparr>o_remainder := Some (pending st @ c)\<rparr>))"
  by (simp add: ogg_transform_alt pages_stall)

lemma readPage_state:
  "o_head st = o_head st' \<Longrightarrow> o_bitstream st = o_bitstream st' \<Longrightarrow>
   readPage st c = Inr None \<Longrightarrow> readPage st' c = Inr None"
  by (auto simp: readPage_def Let_def split: if_splits option.splits prod.splits)

lemma ogg_feed_stall:
  assumes "\<And>k. k \<le> length cs \<Longrightarrow>
     readPage st (pending st @ c @ concat (take k cs)) = Inr None"
  shows "ogg_feed st (c # cs) = ([], Inr (st\<lparr>o_remainder := Some (pending st @ c @ concat cs)\<rparr>))"
  using assms
proof (induction cs arbitrary: st c)
  case Nil
  from Nil [of 0] have "readPage (st\<lparr>o_remainder := None\<rparr>) (pending st @ c) = Inr None"
    by (auto intro: readPage_state)
  then show ?case by (simp add: ogg_transform_stall)
next
  case (Cons d ds)
  let ?st1 = "st\<lparr>o_remainder := Some (pending st @ c)\<rparr>"
  from Cons.prems [of 0] have "readPage (st\<lparr>o_remainder := None\<rparr>) (pending st @ c) = Inr None"
    by (auto intro: readPage_state)
  then have t: "ogg_transform st c = ([], Inr ?st1)" by (simp add: ogg_transform_stall)
  have p: "pending ?st1 = pending st @ c" by (simp add: pending_def)
  have "\<And>k. k \<le> length ds \<Longrightarrow> readPage ?st1 (pending ?st1 @ d @ concat (take k ds)) = Inr None"
  proof -
    fix k assume "k \<le> length ds"
    then have "readPage st (pending st @ c @ concat (take (Suc k) (d # ds))) = Inr None"
      by (intro Cons.prems) simp
    then show "readPage ?st1 (pending ?st1 @ d @ concat (take k ds)) = Inr None"
      unfolding p by (auto intro: readPage_state)
  qed
  from Cons.IH [OF this] have "ogg_feed ?st1 (d # ds) =
      ([], Inr (?st1\<lparr>o_remainder := Some (pending ?st1 @ d @ concat ds)\<rparr>))" .
  then show ?case
    unfolding ogg_feed.simps(2) [of st c "d # ds"] t p by simp
qed

lemma readPage_unterminated:
  assumes "27 \<le> length buf" "slice buf 0 4 = OGGS_HEADER" "buf ! 4 = STREAM_STRUCTURE_VERSION"
    "0 < unat (buf ! 26)" "27 + unat (buf ! 26) \<le> length buf" "buf ! (26 + unat (buf ! 26)) = 255"
  shows "readPage st (buf @ extra) = Inr None"
proof -
  let ?n = "unat (buf ! 26)"
  let ?t = "slice buf 27 (27 + ?n)"
  have len: "length ?t = ?n" using assms by (simp add: slice_def)
  have ne: "?t \<noteq> []" using len assms(4) by auto
  have "last ?t = ?t ! (?n - 1)" using ne len by (simp add: last_conv_nth)
  also have "\<dots> = buf ! (26 + ?n)" using assms by (simp add: slice_def)
  finally have "last ?t = 255" using assms by simp
  with ne have "readSizes ?t = None" by (simp add: readSizes_def lacing_last_255)
  with assms show ?thesis
    by (simp add: readPage_def Let_def OGG_PAGE_HEADER_SIZE_def slice_append nth_append)
qed

subsection \<open>A page whose body has not arrived\<close>



subsection \<open>Routing of segments\<close>

text \<open>
  C2. Once a head packet is recorded, a segment that begins with the comment signature is to
  be signalled as a \<open>tags\<close> event. \<open>_readPage\<close> compares the first eight bytes of the segment
  with the seven bytes of \<open>OPUS_TAGS\<close>, so the comparison fails for every segment of eight
  bytes or more: the comment header of the stream \<open>head_page @ tags_page\<close> is pushed as an
  audio packet.
\<close>

theorem C2_comment_packet_pushed:
  "fst (ogg_feed ogg_init [head_page @ tags_page]) =
     [Head (ascii ''OpusHead''), Push (ascii ''OpusTags'' @ [0,0,0,0, 0,0,0,0])]"
  by code_simp

subsection \<open>Lacing runs that leave the page\<close>

text \<open>
  C9. A buffer that holds a complete page header (with the capture pattern and the version
  that \<open>_readPage\<close> accepts) and a complete segment table ending in 255 makes \<open>_readPage\<close>
  return \<open>false\<close>, whatever bytes follow it; so when such a page is at the front of the held
  bytes and the next chunk, this call and all later calls emit nothing and hold on to every
  byte.
\<close>

theorem C9_unterminated_lacing_stalls:
  assumes "27 \<le> length buf" and "slice buf 0 4 = OGGS_HEADER" and "buf ! 4 = STREAM_STRUCTURE_VERSION"
    and "0 < unat (buf ! 26)" and "27 + unat (buf ! 26) \<le> length buf"
    and "buf ! (26 + unat (buf ! 26)) = 255"
    and "buf = pending st @ c"
  shows "readPage st' (buf @ payload) = Inr None
    \<and> ogg_feed st (c # cs) = ([], Inr (st\<lparr>o_remainder := Some (buf @ concat cs)\<rparr>))"
proof
  show "readPage st' (buf @ payload) = Inr None"
    using assms(1-6) by (rule readPage_unterminated)
  have "\<And>k. k \<le> length cs \<Longrightarrow> readPage st (pending st @ c @ concat (take k cs)) = Inr None"
    using readPage_unterminated [OF assms(1-6)] assms(7) by simp
  from ogg_feed_stall [OF this] assms(7)
  show "ogg_feed st (c # cs) = ([], Inr (st\<lparr>o_remainder := Some (buf @ concat cs)\<rparr>))"
    by simp
qed

theorem C9_unterminated_lacing_stalls_witness:
  "readPage ogg_init (open_page @ replicate 258 0) = Inr None
   \<and> ogg_feed ogg_init [open_page, replicate 258 0, [1, 2, 3]] =
       ([], Inr (ogg_init\<lparr>o_remainder := Some (open_page @ replicate 258 0 @ [1, 2, 3])\<rparr>))"
proof -
  have h: "27 \<le> length open_page" "slice open_page 0 4 = OGGS_HEADER"
    "open_page ! 4 = STREAM_STRUCTURE_VERSION" "0 < unat (open_page ! 26)"
    "27 + unat (open_page ! 26) \<le> length open_page"
    "open_page ! (26 + unat (open_page ! 26)) = 255"
    "open_page = pending ogg_init @ open_page"
    by (simp_all add: open_page_def ascii_def slice_def OGGS_HEADER_def
        STREAM_STRUCTURE_VERSION_def pending_def ogg_init_def)
  from C9_unterminated_lacing_stalls [OF h, of ogg_init "replicate 258 0" "[replicate 258 0, [1, 2, 3]]"]
  show ?thesis by simp
qed

section \<open>Properties of the EBML tag walker\<close>

subsection \<open>Variable-length integers\<close>

lemma vintScan_le: "i \<le> 8 \<Longrightarrow> vintScan b i \<le> 8"
  by (induction b i rule: vintScan.induct) (subst vintScan.simps, auto)

lemma vintLength_SomeD:
  "vintLength buffer index = Some L \<Longrightarrow> 1 \<le> L \<and> L \<le> 9 \<and> index + L \<le> int (length buffer)"
  using vintScan_le [of 0 "ToNumber (buf_index buffer index)"]
  by (auto simp: vintLength_def Let_def split: if_splits)

lemma expandLoop_Num:
  "0 \<le> i \<Longrightarrow> end \<le> int (length buffer) \<Longrightarrow> v \<noteq> NaN \<Longrightarrow> expandLoop buffer i end v \<noteq> NaN"
proof (induction buffer i "end" v rule: expandLoop.induct)
  case (1 buffer i e v)
  show ?case
  proof (cases "i < e")
    case True
    have "js_add (js_shl v (Num 8)) (ToNumber (buf_index buffer i)) \<noteq> NaN"
      using True 1(2,3) by (simp add: js_add_def js_shl_def ToNumber_def buf_index_def)
    from "1.IH" [OF True _ "1.prems"(2) this] "1.prems"(1) True show ?thesis
      by (subst expandLoop.simps) simp
  next
    case False
    with 1 show ?thesis by (subst expandLoop.simps) simp
  qed
qed

lemma expandVint_Num:
  assumes "0 \<le> start" and "expandVint buffer start end = Some v"
  shows "v \<noteq> NaN"
proof -
  from assms obtain len where e: "end \<le> int (length buffer)"
    and v: "v = expandLoop buffer (start + 1) end
          (js_and (ToNumber (buf_index buffer start)) (js_sub (js_shl (Num 1) (Num (8 - len))) (Num 1)))"
    by (auto simp: expandVint_def Let_def split: option.splits if_splits)
  show ?thesis
    unfolding v using assms(1) e by (intro expandLoop_Num) (simp_all add: js_and_def)
qed




text \<open>
  C4. The value of a variable-length integer is to be the masked first byte followed by the
  remaining bytes, big-endian, and its length is to lie between 1 and 8. \<open>expandVint\<close>
  accumulates with the 32-bit operator \<open><<\<close>: the five-byte field \<open>08 80 00 00 00\<close>, which
  encodes \<open>2^31\<close>, decodes to \<open>-2^31\<close>, and the eight-byte field \<open>01 FF FF FF FF FF FF FF\<close>
  to \<open>-1\<close>. A first byte 0 gives the length 9. The two fields \<open>81\<close> and \<open>41 02\<close> decode
  to 1 and to \<open>0x102\<close>.
\<close>

theorem C4_vint_wraps_at_32_bits:
  "vintLength [0x08, 0x80, 0x00, 0x00, 0x00] 0 = Some 5
   \<and> expandVint [0x08, 0x80, 0x00, 0x00, 0x00] 0 5 = Some (Num (- 2147483648))
   \<and> vintLength [0x01, 0xff, 0xff, 0xff, 0xff, 0xff, 0xff, 0xff] 0 = Some 8
   \<and> expandVint [0x01, 0xff, 0xff, 0xff, 0xff, 0xff, 0xff, 0xff] 0 8 = Some (Num (- 1))
   \<and> vintLength [0, 0, 0, 0, 0, 0, 0, 0, 0] 0 = Some 9
   \<and> vintLength [0x81] 0 = Some 1 \<and> expandVint [0x81] 0 1 = Some (Num 1)
   \<and> vintLength [0x41, 0x02] 0 = Some 2 \<and> expandVint [0x41, 0x02] 0 2 = Some (Num 258)"
  by code_simp

subsection \<open>The Vorbis head hook\<close>

text \<open>
  C3, as stated: the payload \<open>[2, 3, 4, 'v','o','r','b','i','s', h1, h2, h3]\<close> has the
  signature at bytes 3 to 8, and the hook, which looks at bytes 4 to 9, throws.
\<close>

theorem C3_vorbis_payload_counterexample:
  "vorbis_checkHead ([2, 3, 4] @ ascii ''vorbis'' @ [1, 2, 3] @ [4, 5, 6, 7] @ [8, 9]) = Inl NotVorbis"
  by code_simp

text \<open>
  C3, amended: for a payload \<open>[2, 3, 4] @ h1 @ h2 @ h3\<close> with \<open>h1\<close> of 3 bytes and \<open>h2\<close> of 4
  bytes, in which bytes 4 to 9 (the last two bytes of \<open>h1\<close> and the four bytes of \<open>h2\<close>) are the
  signature \<open>vorbis\<close>, the hook does not throw and pushes exactly the three packets \<open>h1\<close>,
  \<open>h2\<close> and \<open>h3\<close>, in this order.
\<close>

theorem C3_vorbis_three_packets:
  assumes "length h1 = 3" and "length h2 = 4" and "drop 1 h1 @ h2 = ascii ''vorbis''"
  shows "vorbis_checkHead ([2, 3, 4] @ h1 @ h2 @ h3) = Inr [h1, h2, h3]"
proof -
  obtain a b c where h1: "h1 = [a, b, c]"
    using assms(1) by (cases h1; cases "tl h1"; cases "tl (tl h1)"; cases "tl (tl (tl h1))") auto
  obtain d e f g where h2: "h2 = [d, e, f, g]"
    using assms(2)
    by (cases h2; cases "tl h2"; cases "tl (tl h2)"; cases "tl (tl (tl h2))";
        cases "tl (tl (tl (tl h2)))") auto
  from assms(3) have v: "[b, c, d, e, f, g] = ascii ''vorbis''" by (simp add: h1 h2)
  show ?thesis
    by (simp add: vorbis_checkHead_def readUInt8_def slice_def VORBIS_HEAD_def h1 h2 v [symmetric])
qed

theorem C3_vorbis_three_packets_witness:
  "vorbis_checkHead ([2, 3, 4] @ [1, 0x76, 0x6f] @ [0x72, 0x62, 0x69, 0x73] @ [8, 9])
     = Inr [[1, 0x76, 0x6f], [0x72, 0x62, 0x69, 0x73], [8, 9]]"
proof -
  have "drop 1 [1, 0x76, 0x6f] @ [0x72, 0x62, 0x69, 0x73] = ascii ''vorbis''"
    by (simp add: ascii_def)
  from C3_vorbis_three_packets [OF _ _ this, of "[8, 9]"] show ?thesis by simp
qed

subsection \<open>Buffer accesses at non-negative offsets\<close>

lemma adjustOffset_nonneg: "0 \<le> off \<Longrightarrow> 0 \<le> len \<Longrightarrow> adjustOffset (Num off) len = min off len"
  by (auto simp: adjustOffset_def)

lemma js_slice_nonneg:
  "0 \<le> s \<Longrightarrow> 0 \<le> e \<Longrightarrow> js_slice b (Num s) (Num e) = take (nat (e - s)) (drop (nat s) b)"
  by (auto simp: js_slice_def Let_def adjustOffset_nonneg min_def)

lemma js_slice_NaN: "0 \<le> s \<Longrightarrow> js_slice b (Num s) NaN = []"
  by (auto simp: js_slice_def Let_def adjustOffset_nonneg adjustOffset_def min_def)

text \<open>For natural numbers as bounds, \<open>slice\<close> is what \<open>Buffer.prototype.slice\<close> returns.\<close>

lemma js_slice_nat: "js_slice b (Num (int i)) (Num (int j)) = slice b i j"
  by (simp add: js_slice_nonneg slice_def nat_diff_distrib')

lemma js_slice_from_nonneg: "0 \<le> s \<Longrightarrow> js_slice_from b (Num s) = drop (nat s) b"
  by (simp add: js_slice_from_def js_slice_nonneg)

lemma buf_index_append: "i < int (length C) \<Longrightarrow> buf_index (C @ y) i = buf_index C i"
  by (auto simp: buf_index_def nth_append)

lemma buf_index_shift: "0 \<le> i \<Longrightarrow> buf_index (pre @ c) (i + int (length pre)) = buf_index c i"
  by (auto simp: buf_index_def nth_append nat_add_distrib)

lemma vintLength_append: "vintLength C i = Some L \<Longrightarrow> vintLength (C @ y) i = Some L"
proof -
  assume a: "vintLength C i = Some L"
  from vintLength_SomeD [OF a] have "i < int (length C)" by simp
  then have "buf_index (C @ y) i = buf_index C i" by (rule buf_index_append)
  with a show ?thesis by (auto simp: vintLength_def Let_def split: if_splits)
qed

lemma vintLength_shift: "0 \<le> i \<Longrightarrow> vintLength (pre @ c) (i + int (length pre)) = vintLength c i"
  by (simp add: vintLength_def buf_index_shift Let_def)

lemma expandLoop_append:
  "e \<le> int (length C) \<Longrightarrow> expandLoop (C @ y) i e v = expandLoop C i e v"
proof (induction C i e v rule: expandLoop.induct)
  case (1 buffer i e v)
  show ?case
  proof (cases "i < e")
    case True
    then have "buf_index (buffer @ y) i = buf_index buffer i" using 1(2) by (intro buf_index_append) simp
    with True "1.IH" [OF True "1.prems"] show ?thesis
      by (subst (1 2) expandLoop.simps) simp
  next
    case False
    then show ?thesis by (subst (1 2) expandLoop.simps) simp
  qed
qed

lemma expandLoop_shift:
  "0 \<le> i \<Longrightarrow> expandLoop (pre @ c) (i + int (length pre)) (e + int (length pre)) v = expandLoop c i e v"
proof (induction c i e v rule: expandLoop.induct)
  case (1 buffer i e v)
  show ?case
  proof (cases "i < e")
    case True
    from "1.IH" [OF True] "1.prems" True show ?thesis
      by (subst (1 2) expandLoop.simps) (simp add: buf_index_shift ac_simps)
  next
    case False
    then show ?thesis by (subst (1 2) expandLoop.simps) simp
  qed
qed

lemma expandVint_append: "expandVint C s e = Some v \<Longrightarrow> expandVint (C @ y) s e = Some v"
proof -
  assume a: "expandVint C s e = Some v"
  then obtain L where l: "vintLength C s = Some L" and e: "e \<le> int (length C)"
    by (auto simp: expandVint_def split: option.splits if_splits)
  from vintLength_SomeD [OF l] have "s < int (length C)" by simp
  then have b: "buf_index (C @ y) s = buf_index C s" by (rule buf_index_append)
  from a l e show ?thesis
    by (simp add: expandVint_def vintLength_append [OF l] b expandLoop_append Let_def)
qed

lemma expandVint_shift:
  "0 \<le> s \<Longrightarrow> expandVint (pre @ c) (s + int (length pre)) (e + int (length pre)) = expandVint c s e"
  using expandLoop_shift [of "s + 1" pre c e]
  by (simp add: expandVint_def vintLength_shift buf_index_shift Let_def ac_simps
      split: option.splits)

lemma readEBMLId_append:
  "0 \<le> off \<Longrightarrow> readEBMLId C off = Some r \<Longrightarrow> readEBMLId (C @ y) off = Some r"
proof -
  assume o: "0 \<le> off" and a: "readEBMLId C off = Some r"
  then obtain L where l: "vintLength C off = Some L"
    by (auto simp: readEBMLId_def split: option.splits)
  from vintLength_SomeD [OF l] o a l show ?thesis
    by (auto simp: readEBMLId_def vintLength_append [OF l] js_slice_nonneg)
qed

lemma readEBMLId_shift:
  "0 \<le> off \<Longrightarrow> readEBMLId (pre @ c) (off + int (length pre)) =
     map_option (\<lambda>(ebmlID, o1). (ebmlID, o1 + int (length pre))) (readEBMLId c off)"
proof (cases "vintLength c off")
  case None
  assume "0 \<le> off"
  with None show ?thesis by (simp add: readEBMLId_def vintLength_shift)
next
  case (Some L)
  assume o: "0 \<le> off"
  from vintLength_SomeD [OF Some] have "1 \<le> L" by simp
  with o Some show ?thesis
    by (simp add: readEBMLId_def vintLength_shift js_slice_nonneg nat_add_distrib)
qed

lemma readTagDataSize_append:
  "readTagDataSize C off = Some r \<Longrightarrow> readTagDataSize (C @ y) off = Some r"
  by (auto simp: readTagDataSize_def vintLength_append expandVint_append split: option.splits)

lemma readTagDataSize_shift:
  "0 \<le> off \<Longrightarrow> readTagDataSize (pre @ c) (off + int (length pre)) =
     map_option (\<lambda>(o2, dl, sl). (o2 + int (length pre), dl, sl)) (readTagDataSize c off)"
proof -
  assume o: "0 \<le> off"
  have "expandVint (pre @ c) (off + int (length pre)) (off + int (length pre) + L) = expandVint c off (off + L)"
    for L
    using expandVint_shift [OF o, of pre c "off + L"] by (simp add: ac_simps)
  with o show ?thesis
    by (simp add: readTagDataSize_def vintLength_shift split: option.splits)
qed

lemma readEBMLId_SomeD: "readEBMLId C off = Some (ebmlID, o1) \<Longrightarrow> off < o1 \<and> o1 \<le> int (length C)"
  by (auto simp: readEBMLId_def split: option.splits dest: vintLength_SomeD)

lemma readTagDataSize_SomeD:
  "readTagDataSize C off = Some (o2, dl, sl) \<Longrightarrow> off < o2 \<and> o2 \<le> int (length C)"
  by (auto simp: readTagDataSize_def split: option.splits dest: vintLength_SomeD)

lemma readTagDataSize_Num:
  "0 \<le> off \<Longrightarrow> readTagDataSize C off = Some (o2, dl, sl) \<Longrightarrow> dl \<noteq> NaN"
  by (auto simp: readTagDataSize_def split: option.splits dest: expandVint_Num)

subsection \<open>One tag, read from a buffer and from the same buffer behind a prefix\<close>

lemma refield_sel [simp]:
  "w_count (refield a l r s) = a"
  "w_length (refield a l r s) = l"
  "w_remainder (refield a l r s) = r"
  "w_track (refield a l r s) = w_track s"
  "w_incompleteTrack (refield a l r s) = w_incompleteTrack s"
  "w_ebmlFound (refield a l r s) = w_ebmlFound s"
  "w_skipUntil (refield a l r s) = w_skipUntil s"
  by (simp_all add: refield_def)

lemma refield_upd [simp]:
  "refield a l r (s\<lparr>w_ebmlFound := b\<rparr>) = (refield a l r s)\<lparr>w_ebmlFound := b\<rparr>"
  "refield a l r (s\<lparr>w_skipUntil := k\<rparr>) = (refield a l r s)\<lparr>w_skipUntil := k\<rparr>"
  "refield a l r (s\<lparr>w_track := t\<rparr>) = (refield a l r s)\<lparr>w_track := t\<rparr>"
  "refield a l r (s\<lparr>w_incompleteTrack := u\<rparr>) = (refield a l r s)\<lparr>w_incompleteTrack := u\<rparr>"
  by (simp_all add: refield_def)

lemma updateTrack_refield [simp]:
  "updateTrack ebmlID data (refield a l r st) = refield a l r (updateTrack ebmlID data st)"
  by (simp add: updateTrack_def Let_def)

lemma readTag_alt:
  "readTag checkHead st chunk offset =
     (case readEBMLId chunk offset of
        None \<Rightarrow> Inr (st, [], TOO_SHORT)
      | Some (ebmlID, offset1) \<Rightarrow>
          if \<not> w_ebmlFound st \<and> ebmlID \<noteq> EBML_ID then Inl NoEBMLTag
          else
            (case readTagDataSize chunk offset1 of
               None \<Rightarrow> Inr (st\<lparr>w_ebmlFound := True\<rparr>, [], TOO_SHORT)
             | Some (offset2, dataLength, sizeLength) \<Rightarrow>
                 tagBody checkHead (st\<lparr>w_ebmlFound := True\<rparr>) chunk ebmlID offset2 dataLength))"
  by (simp add: readTag_def tagBody_def Let_def split: option.splits)

lemma tagBody_shift:
  assumes o2: "0 \<le> o2"
    and ok: "map_of TAGS ebmlID = Some True \<or> 0 \<le> d"
    and cnt: "a = w_count st - int (length pre)"
  shows "tagBody checkHead (refield a l r st) (pre @ c) ebmlID (o2 + int (length pre)) (Num d)
         = (case tagBody checkHead st c ebmlID o2 (Num d) of
              Inl e \<Rightarrow> Inl e
            | Inr (s, packets, res) \<Rightarrow>
                Inr (refield a l r s, packets, shift_tag (int (length pre)) res))"
proof (cases "map_of TAGS ebmlID")
  case None
  with cnt show ?thesis
    by (simp add: tagBody_def js_add_def js_gt_def ac_simps)
next
  case (Some t)
  show ?thesis
  proof (cases t)
    case True
    with Some show ?thesis by (simp add: tagBody_def js_add_def)
  next
    case False
    with Some ok have d0: "0 \<le> d" by simp
    have sl: "js_slice (pre @ c) (Num (o2 + int (length pre))) (Num (o2 + int (length pre) + d))
        = js_slice c (Num o2) (Num (o2 + d))"
      using o2 d0 by (simp add: js_slice_nonneg nat_add_distrib)
    from Some False sl show ?thesis
      by (auto simp: tagBody_def js_add_def js_gt_def Let_def
          split: sum.splits option.splits)
  qed
qed

lemma readTag_shift:
  assumes o: "0 \<le> off"
    and ok: "\<And>ebmlID o1 o2 dl sl. readEBMLId c off = Some (ebmlID, o1) \<Longrightarrow>
        readTagDataSize c o1 = Some (o2, dl, sl) \<Longrightarrow> map_of TAGS ebmlID \<noteq> Some True \<Longrightarrow>
        \<exists>d. dl = Num d \<and> 0 \<le> d"
    and cnt: "a = w_count st - int (length pre)"
  shows "readTag checkHead (refield a l r st) (pre @ c) (off + int (length pre))
         = (case readTag checkHead st c off of
              Inl e \<Rightarrow> Inl e
            | Inr (s, packets, res) \<Rightarrow>
                Inr (refield a l r s, packets, shift_tag (int (length pre)) res))"
proof (cases "readEBMLId c off")
  case None
  with o show ?thesis by (simp add: readTag_alt readEBMLId_shift)
next
  case (Some p)
  obtain ebmlID o1 where p: "p = (ebmlID, o1)" by (cases p)
  note id = Some [unfolded p]
  from readEBMLId_SomeD [OF id] o have o1: "0 \<le> o1" by simp
  show ?thesis
  proof (cases "readTagDataSize c o1")
    case None
    with o o1 id show ?thesis
      by (simp add: readTag_alt readEBMLId_shift readTagDataSize_shift)
  next
    case (Some b)
    obtain o2 dl sl where b: "b = (o2, dl, sl)" by (cases b)
    note sz = Some [unfolded b]
    from readTagDataSize_SomeD [OF sz] o1 have o2: "0 \<le> o2" by simp
    from readTagDataSize_Num [OF o1 sz] obtain d where d: "dl = Num d" by (cases dl) auto
    have okd: "map_of TAGS ebmlID = Some True \<or> 0 \<le> d"
      using ok [OF id sz] d by auto
    have "tagBody checkHead (refield a l r (st\<lparr>w_ebmlFound := True\<rparr>))
           (pre @ c) ebmlID (o2 + int (length pre)) (Num d)
         = (case tagBody checkHead (st\<lparr>w_ebmlFound := True\<rparr>) c ebmlID o2 (Num d) of
              Inl e \<Rightarrow> Inl e
            | Inr (s, packets, res) \<Rightarrow>
                Inr (refield a l r s, packets, shift_tag (int (length pre)) res))"
      by (rule tagBody_shift [OF o2 okd]) (simp add: cnt)
    with o o1 id sz d show ?thesis
      by (simp add: readTag_alt readEBMLId_shift readTagDataSize_shift)
  qed
qed

lemma readTag_noid:
  "readEBMLId C off = None \<Longrightarrow> readTag ch st C off = Inr (st, [], TOO_SHORT)"
  by (simp add: readTag_alt)

lemma readTag_root_missing:
  "readEBMLId C off = Some (ebmlID, o1) \<Longrightarrow> \<not> w_ebmlFound st \<Longrightarrow> ebmlID \<noteq> EBML_ID \<Longrightarrow>
   readTag ch st C off = Inl NoEBMLTag"
  by (simp add: readTag_alt)

lemma readTag_nosize:
  "readEBMLId C off = Some (ebmlID, o1) \<Longrightarrow> w_ebmlFound st \<or> ebmlID = EBML_ID \<Longrightarrow>
   readTagDataSize C o1 = None \<Longrightarrow>
   readTag ch st C off = Inr (st\<lparr>w_ebmlFound := True\<rparr>, [], TOO_SHORT)"
  by (auto simp: readTag_alt)

lemma readTag_header:
  "readEBMLId C off = Some (ebmlID, o1) \<Longrightarrow> w_ebmlFound st \<or> ebmlID = EBML_ID \<Longrightarrow>
   readTagDataSize C o1 = Some (o2, dl, sl) \<Longrightarrow>
   readTag ch st C off = tagBody ch (st\<lparr>w_ebmlFound := True\<rparr>) C ebmlID o2 dl"
  by (auto simp: readTag_alt)

lemma updateTrack_keeps:
  "w_count (updateTrack ebmlID data s) = w_count s"
  "w_skipUntil (updateTrack ebmlID data s) = w_skipUntil s"
  "w_ebmlFound (updateTrack ebmlID data s) = w_ebmlFound s"
  "w_length (updateTrack ebmlID data s) = w_length s"
  "w_remainder (updateTrack ebmlID data s) = w_remainder s"
  by (simp_all add: updateTrack_def Let_def)

lemma tagBody_container:
  "map_of TAGS ebmlID = Some True \<Longrightarrow> tagBody ch s C ebmlID o2 dl = Inr (s, [], Tag (Num o2) None)"
  by (simp add: tagBody_def)

lemma tagBody_unknown:
  "map_of TAGS ebmlID = None \<Longrightarrow>
   tagBody ch s C ebmlID o2 (Num d) =
     (if int (length C) > o2 + d then Inr (s, [], Tag (Num (o2 + d)) None)
      else Inr (s, [], Tag (Num o2) (Some (Num (w_count s + o2 + d)))))"
  by (simp add: tagBody_def js_gt_def js_add_def)

lemma tagBody_leaf_short:
  "map_of TAGS ebmlID = Some False \<Longrightarrow> o2 + d > int (length C) \<Longrightarrow>
   tagBody ch s C ebmlID o2 (Num d) = Inr (s, [], TOO_SHORT)"
  by (simp add: tagBody_def js_gt_def js_add_def)

lemma tagBody_leaf:
  assumes "map_of TAGS ebmlID = Some False" and "o2 + d \<le> int (length C)"
  shows "(\<exists>e. tagBody ch s C ebmlID o2 (Num d) = Inl e) \<or>
         (\<exists>s' pk. tagBody ch s C ebmlID o2 (Num d) = Inr (s', pk, Tag (Num (o2 + d)) None)
            \<and> w_count s' = w_count s \<and> w_skipUntil s' = w_skipUntil s
            \<and> w_ebmlFound s' = w_ebmlFound s)"
  using assms
  by (auto simp: tagBody_def js_gt_def js_add_def Let_def updateTrack_keeps
      split: sum.splits option.splits)

lemma tagBody_leaf_append:
  assumes "map_of TAGS ebmlID = Some False" and "o2 + d \<le> int (length C)" and "0 \<le> o2" and "0 \<le> d"
  shows "tagBody ch s (C @ y) ebmlID o2 (Num d) = tagBody ch s C ebmlID o2 (Num d)"
proof -
  have "js_slice (C @ y) (Num o2) (Num (o2 + d)) = js_slice C (Num o2) (Num (o2 + d))"
    using assms by (simp add: js_slice_nonneg)
  with assms show ?thesis
    by (simp add: tagBody_def js_gt_def js_add_def Let_def)
qed

subsection \<open>Walkable buffers\<close>

lemma walkable_nonneg: "walkable C off \<Longrightarrow> 0 \<le> off"
  by (subst (asm) walkable.simps) (simp split: if_splits)

lemma walkable_noid: "0 \<le> off \<Longrightarrow> readEBMLId C off = None \<Longrightarrow> walkable C off"
  by (subst walkable.simps) simp

lemma walkable_header:
  assumes "readEBMLId C off = Some (ebmlID, o1)" and "readTagDataSize C o1 = Some (o2, dl, sl)"
  shows "walkable C off \<longleftrightarrow>
     0 \<le> off \<and>
     (if map_of TAGS ebmlID = Some True then walkable C o2
      else \<exists>d. dl = Num d \<and> 0 \<le> d \<and> (o2 + d \<le> int (length C) \<longrightarrow> walkable C (o2 + d)))"
  using assms
  by (subst walkable.simps) (auto split: jsnum.splits)

lemma walkable_step:
  assumes "walkable C off"
  obtains
    (noid) "readEBMLId C off = None"
  | (nosize) ebmlID o1 where "readEBMLId C off = Some (ebmlID, o1)" "readTagDataSize C o1 = None"
  | (container) ebmlID o1 o2 dl sl where
      "readEBMLId C off = Some (ebmlID, o1)" "readTagDataSize C o1 = Some (o2, dl, sl)"
      "map_of TAGS ebmlID = Some True" "walkable C o2"
  | (inside) ebmlID o1 o2 d sl where
      "readEBMLId C off = Some (ebmlID, o1)" "readTagDataSize C o1 = Some (o2, Num d, sl)"
      "map_of TAGS ebmlID \<noteq> Some True" "0 \<le> d" "o2 + d \<le> int (length C)" "walkable C (o2 + d)"
  | (beyond) ebmlID o1 o2 d sl where
      "readEBMLId C off = Some (ebmlID, o1)" "readTagDataSize C o1 = Some (o2, Num d, sl)"
      "map_of TAGS ebmlID \<noteq> Some True" "0 \<le> d" "o2 + d > int (length C)"
proof (cases "readEBMLId C off")
  case None
  then show ?thesis by (rule noid)
next
  case (Some p)
  obtain ebmlID o1 where p: "p = (ebmlID, o1)" by (cases p)
  note id = Some [unfolded p]
  show ?thesis
  proof (cases "readTagDataSize C o1")
    case None
    with id show ?thesis by (rule nosize)
  next
    case (Some q)
    obtain o2 dl sl where q: "q = (o2, dl, sl)" by (cases q)
    note sz = Some [unfolded q]
    note w = assms [unfolded walkable_header [OF id sz]]
    show ?thesis
    proof (cases "map_of TAGS ebmlID = Some True")
      case True
      with w have "walkable C o2" by simp
      with id sz True show ?thesis by (rule container)
    next
      case False
      with w obtain d where d: "dl = Num d" "0 \<le> d" "o2 + d \<le> int (length C) \<longrightarrow> walkable C (o2 + d)"
        by auto
      show ?thesis
      proof (cases "o2 + d \<le> int (length C)")
        case True
        with d id sz False show ?thesis by (intro inside [of ebmlID o1 o2 d sl]) simp_all
      next
        case f: False
        with d id sz False show ?thesis by (intro beyond [of ebmlID o1 o2 d sl]) simp_all
      qed
    qed
  qed
qed

lemma walkable_prefix: "walkable (C @ y) off \<Longrightarrow> walkable C off"
proof (induction "nat (int (length C) - off)" arbitrary: off rule: less_induct)
  case less
  from walkable_nonneg [OF less.prems] have o: "0 \<le> off" .
  show ?case
  proof (cases "readEBMLId C off")
    case None
    with o show ?thesis by (rule walkable_noid)
  next
    case (Some p)
    obtain ebmlID o1 where p: "p = (ebmlID, o1)" by (cases p)
    note id = Some [unfolded p]
    note id' = readEBMLId_append [OF o id, of y]
    from readEBMLId_SomeD [OF id] have o1: "off < o1" "o1 \<le> int (length C)" by simp_all
    show ?thesis
    proof (cases "readTagDataSize C o1")
      case None
      with id o show ?thesis by (subst walkable.simps) simp
    next
      case (Some q)
      obtain o2 dl sl where q: "q = (o2, dl, sl)" by (cases q)
      note sz = Some [unfolded q]
      note sz' = readTagDataSize_append [OF sz, of y]
      from readTagDataSize_SomeD [OF sz] have o2: "o1 < o2" "o2 \<le> int (length C)" by simp_all
      note w = less.prems [unfolded walkable_header [OF id' sz']]
      show ?thesis
      proof (cases "map_of TAGS ebmlID = Some True")
        case True
        with w have "walkable (C @ y) o2" by simp
        then have "walkable C o2" using o1 o2 by (intro less.hyps) simp_all
        with True o show ?thesis by (simp add: walkable_header [OF id sz])
      next
        case False
        with w obtain d where d: "dl = Num d" "0 \<le> d"
          "o2 + d \<le> int (length (C @ y)) \<longrightarrow> walkable (C @ y) (o2 + d)"
          by auto
        have "o2 + d \<le> int (length C) \<longrightarrow> walkable C (o2 + d)"
        proof
          assume l: "o2 + d \<le> int (length C)"
          with d have "walkable (C @ y) (o2 + d)" by simp
          then show "walkable C (o2 + d)" using o1 o2 d(2) l by (intro less.hyps) simp_all
        qed
        with d False o show ?thesis by (simp add: walkable_header [OF id sz])
      qed
    qed
  qed
qed

lemma walkable_shift:
  "0 \<le> off \<Longrightarrow> walkable (pre @ c) (off + int (length pre)) = walkable c off"
proof (induction "nat (int (length c) - off)" arbitrary: off rule: less_induct)
  case less
  note o = less.prems
  let ?k = "int (length pre)"
  show ?case
  proof (cases "readEBMLId c off")
    case None
    with o have "readEBMLId (pre @ c) (off + ?k) = None" by (simp add: readEBMLId_shift)
    with None o show ?thesis by (simp add: walkable_noid)
  next
    case (Some p)
    obtain ebmlID o1 where p: "p = (ebmlID, o1)" by (cases p)
    note id = Some [unfolded p]
    from id o have id': "readEBMLId (pre @ c) (off + ?k) = Some (ebmlID, o1 + ?k)"
      by (simp add: readEBMLId_shift)
    from readEBMLId_SomeD [OF id] have o1: "off < o1" "o1 \<le> int (length c)" by simp_all
    with o have o1n: "0 \<le> o1" by simp
    show ?thesis
    proof (cases "readTagDataSize c o1")
      case None
      with o1n have "readTagDataSize (pre @ c) (o1 + ?k) = None" by (simp add: readTagDataSize_shift)
      with None id id' o show ?thesis by (subst (1 2) walkable.simps) simp
    next
      case (Some q)
      obtain o2 dl sl where q: "q = (o2, dl, sl)" by (cases q)
      note sz = Some [unfolded q]
      from sz o1n have sz': "readTagDataSize (pre @ c) (o1 + ?k) = Some (o2 + ?k, dl, sl)"
        by (simp add: readTagDataSize_shift)
      from readTagDataSize_SomeD [OF sz] have o2: "o1 < o2" "o2 \<le> int (length c)" by simp_all
      have a: "walkable (pre @ c) (o2 + ?k) = walkable c o2"
        using o o1 o2 by (intro less.hyps) simp_all
      have b: "walkable (pre @ c) (o2 + d + ?k) = walkable c (o2 + d)"
        if "0 \<le> d" "o2 + d \<le> int (length c)" for d
        using o o1 o2 that by (intro less.hyps) simp_all
      have b': "walkable (pre @ c) (o2 + ?k + d) = walkable c (o2 + d)"
        if "0 \<le> d" "o2 + d \<le> int (length c)" for d
        using b [OF that] by (simp add: ac_simps)
      show ?thesis
        unfolding walkable_header [OF id sz] walkable_header [OF id' sz']
        using o a b' by auto
    qed
  qed
qed

subsection \<open>One tag, read from a buffer and from a longer buffer\<close>

lemma tagLoop_throw: "readTag ch st C off = Inl e \<Longrightarrow> tagLoop ch st C off out = Some (out, Inl e)"
  by (subst tagLoop.simps) simp

lemma tagLoop_short:
  "readTag ch st C off = Inr (s, pk, TOO_SHORT) \<Longrightarrow> tagLoop ch st C off out = Some (out @ pk, Inr (s, off))"
  by (subst tagLoop.simps) simp

lemma tagLoop_skip:
  "readTag ch st C off = Inr (s, pk, Tag o' (Some (Num t))) \<Longrightarrow> t \<noteq> 0 \<Longrightarrow>
   tagLoop ch st C off out = Some (out @ pk, Inr (s\<lparr>w_skipUntil := Some t\<rparr>, off))"
  by (subst tagLoop.simps) (simp add: truthy_def)

lemma tagLoop_next:
  "readTag ch st C off = Inr (s, pk, Tag (Num n) None) \<Longrightarrow> n \<noteq> 0 \<Longrightarrow>
   tagLoop ch st C off out = tagLoop ch s C n (out @ pk)"
  by (subst tagLoop.simps) (simp add: truthy_def)

lemma readTag_cases:
  obtains
    (noid) "readEBMLId C off = None" "readTag ch st C off = Inr (st, [], TOO_SHORT)"
  | (root) ebmlID o1 where "readEBMLId C off = Some (ebmlID, o1)" "\<not> w_ebmlFound st" "ebmlID \<noteq> EBML_ID"
      "readTag ch st C off = Inl NoEBMLTag"
  | (nosize) ebmlID o1 where "readEBMLId C off = Some (ebmlID, o1)" "w_ebmlFound st \<or> ebmlID = EBML_ID"
      "readTagDataSize C o1 = None" "readTag ch st C off = Inr (st\<lparr>w_ebmlFound := True\<rparr>, [], TOO_SHORT)"
  | (body) ebmlID o1 o2 dl sl where "readEBMLId C off = Some (ebmlID, o1)" "w_ebmlFound st \<or> ebmlID = EBML_ID"
      "readTagDataSize C o1 = Some (o2, dl, sl)"
      "readTag ch st C off = tagBody ch (st\<lparr>w_ebmlFound := True\<rparr>) C ebmlID o2 dl"
proof (cases "readEBMLId C off")
  case None
  then show ?thesis by (intro noid readTag_noid)
next
  case (Some p)
  obtain ebmlID o1 where p: "p = (ebmlID, o1)" by (cases p)
  note id = Some [unfolded p]
  show ?thesis
  proof (cases "w_ebmlFound st \<or> ebmlID = EBML_ID")
    case False
    with id show ?thesis by (intro root [of ebmlID o1] readTag_root_missing) auto
  next
    case True
    show ?thesis
    proof (cases "readTagDataSize C o1")
      case None
      with id True show ?thesis by (intro nosize [of ebmlID o1] readTag_nosize [of _ _ ebmlID o1])
    next
      case (Some q)
      obtain o2 dl sl where q: "q = (o2, dl, sl)" by (cases q)
      note sz = Some [unfolded q]
      from id True sz show ?thesis
        by (intro body [of ebmlID o1 o2 dl sl] readTag_header [of _ _ ebmlID o1 _ o2 dl sl])
    qed
  qed
qed

lemma readTag_found:
  assumes "readEBMLId X off = Some (ebmlID, o1)" and "w_ebmlFound st \<or> ebmlID = EBML_ID"
  shows "readTag ch (st\<lparr>w_ebmlFound := True\<rparr>) X off = readTag ch st X off"
proof (cases "readTagDataSize X o1")
  case None
  from readTag_nosize [OF assms(1) _ None, of "st\<lparr>w_ebmlFound := True\<rparr>" ch]
    readTag_nosize [OF assms None, of ch]
  show ?thesis by simp
next
  case (Some q)
  obtain o2 dl sl where q: "q = (o2, dl, sl)" by (cases q)
  note sz = Some [unfolded q]
  from readTag_header [OF assms(1) _ sz, of "st\<lparr>w_ebmlFound := True\<rparr>" ch]
    readTag_header [OF assms sz, of ch]
  show ?thesis by simp
qed

lemma tagBody_found:
  "tagBody ch s C ebmlID o2 dl = Inr (s', pk, r) \<Longrightarrow> w_ebmlFound s' = w_ebmlFound s"
  by (auto simp: tagBody_def Let_def updateTrack_keeps split: option.splits if_splits bool.splits sum.splits)

lemma readTag_idem:
  assumes "readTag ch st C off = Inr (s, pk, r)" and "0 \<le> off"
  shows "readTag ch (st\<lparr>w_ebmlFound := w_ebmlFound s\<rparr>) (C @ y) off = readTag ch st (C @ y) off"
proof (cases rule: readTag_cases [of C off ch st])
  case noid
  with assms show ?thesis by simp
next
  case (root ebmlID o1)
  with assms show ?thesis by simp
next
  case (nosize ebmlID o1)
  from nosize(4) assms(1) have "w_ebmlFound s" by auto
  with readTag_found [OF readEBMLId_append [OF assms(2) nosize(1), of y] nosize(2), of ch]
  show ?thesis by simp
next
  case (body ebmlID o1 o2 dl sl)
  have "w_ebmlFound s"
    using body(4) assms(1) tagBody_found [of ch "st\<lparr>w_ebmlFound := True\<rparr>" C ebmlID o2 dl s pk r]
    by simp
  with readTag_found [OF readEBMLId_append [OF assms(2) body(1), of y] body(2), of ch]
  show ?thesis by simp
qed

lemma readTag_append_err:
  assumes "readTag ch st C off = Inl e" and "walkable (C @ y) off"
  shows "readTag ch st (C @ y) off = Inl e"
proof (cases rule: readTag_cases [of C off ch st])
  case noid
  with assms show ?thesis by simp
next
  case (root ebmlID o1)
  from readEBMLId_append [OF walkable_nonneg [OF assms(2)] root(1), of y] root(2,3,4) assms(1)
  show ?thesis by (simp add: readTag_root_missing)
next
  case (nosize ebmlID o1)
  with assms show ?thesis by simp
next
  case (body ebmlID o1 o2 dl sl)
  note o = walkable_nonneg [OF assms(2)]
  note id' = readEBMLId_append [OF o body(1), of y]
  note sz' = readTagDataSize_append [OF body(3), of y]
  from readEBMLId_SomeD [OF body(1)] readTagDataSize_SomeD [OF body(3)] o
  have o2: "0 \<le> o2" by simp
  note w = assms(2) [unfolded walkable_header [OF id' sz']]
  have t: "readTag ch st (C @ y) off = tagBody ch (st\<lparr>w_ebmlFound := True\<rparr>) (C @ y) ebmlID o2 dl"
    using id' body(2) sz' by (rule readTag_header)
  have e: "tagBody ch (st\<lparr>w_ebmlFound := True\<rparr>) C ebmlID o2 dl = Inl e"
    using body(4) assms(1) by simp
  show ?thesis
  proof (cases "map_of TAGS ebmlID")
    case None
    with e show ?thesis by (simp add: tagBody_def split: if_splits)
  next
    case (Some b)
    show ?thesis
    proof (cases b)
      case True
      with Some e show ?thesis by (simp add: tagBody_container)
    next
      case False
      with Some w obtain d where d: "dl = Num d" "0 \<le> d" by auto
      have l: "o2 + d \<le> int (length C)"
        using e Some False d by (cases "o2 + d \<le> int (length C)") (simp_all add: tagBody_leaf_short)
      from tagBody_leaf_append [OF _ l o2 d(2), of ebmlID ch _ y] Some False e d t show ?thesis
        by simp
    qed
  qed
qed

lemma readTag_step:
  assumes w: "walkable (C @ y) off" and cnt: "0 \<le> w_count st"
  obtains
    (err) e where "readTag ch st C off = Inl e" "readTag ch st (C @ y) off = Inl e"
  | (short) s where "readTag ch st C off = Inr (s, [], TOO_SHORT)" "s = st\<lparr>w_ebmlFound := w_ebmlFound s\<rparr>"
  | (skip) s o2 t where "readTag ch st C off = Inr (s, [], Tag (Num o2) (Some (Num t)))"
      "s = st\<lparr>w_ebmlFound := w_ebmlFound s\<rparr>" "0 < t" "int (length C) \<le> t - w_count st"
      "off < t - w_count st"
      "int (length (C @ y)) > t - w_count st \<Longrightarrow>
         readTag ch st (C @ y) off = Inr (s, [], Tag (Num (t - w_count st)) None)
         \<and> walkable (C @ y) (t - w_count st)"
      "\<not> int (length (C @ y)) > t - w_count st \<Longrightarrow>
         readTag ch st (C @ y) off = Inr (s, [], Tag (Num o2) (Some (Num t)))"
  | (step) s pk n where "readTag ch st C off = Inr (s, pk, Tag (Num n) None)"
      "readTag ch st (C @ y) off = Inr (s, pk, Tag (Num n) None)"
      "off < n" "n \<le> int (length C)" "walkable (C @ y) n"
      "w_count s = w_count st" "w_skipUntil s = w_skipUntil st"
proof (cases rule: readTag_cases [of C off ch st])
  case noid
  then show ?thesis by (intro short [of st]) simp_all
next
  case (root ebmlID o1)
  from readTag_append_err [OF root(4) w] root(4) show ?thesis by (intro err [of NoEBMLTag])
next
  case (nosize ebmlID o1)
  then show ?thesis by (intro short [of "st\<lparr>w_ebmlFound := True\<rparr>"]) simp_all
next
  case (body ebmlID o1 o2 dl sl)
  note o = walkable_nonneg [OF w]
  note id' = readEBMLId_append [OF o body(1), of y]
  note sz' = readTagDataSize_append [OF body(3), of y]
  from readEBMLId_SomeD [OF body(1)] readTagDataSize_SomeD [OF body(3)] o
  have o2: "0 \<le> o2" "off < o2" "o2 \<le> int (length C)" by simp_all
  note wh = w [unfolded walkable_header [OF id' sz']]
  have t: "readTag ch st (C @ y) off = tagBody ch (st\<lparr>w_ebmlFound := True\<rparr>) (C @ y) ebmlID o2 dl"
    using id' body(2) sz' by (rule readTag_header)
  let ?s = "st\<lparr>w_ebmlFound := True\<rparr>"
  show ?thesis
  proof (cases "map_of TAGS ebmlID = Some True")
    case True
    with wh have "walkable (C @ y) o2" by simp
    with True body(4) t o2 show ?thesis
      by (intro step [of ?s "[]" o2]) (simp_all add: tagBody_container)
  next
    case False
    with wh obtain d where d: "dl = Num d" "0 \<le> d"
      "o2 + d \<le> int (length (C @ y)) \<longrightarrow> walkable (C @ y) (o2 + d)" by auto
    show ?thesis
    proof (cases "map_of TAGS ebmlID")
      case None
      note u = tagBody_unknown [OF None, of ch ?s _ o2 d]
      show ?thesis
      proof (cases "int (length C) > o2 + d")
        case True
        with u [of C] u [of "C @ y"] body(4) t d o2 show ?thesis
          by (intro step [of ?s "[]" "o2 + d"]) simp_all
      next
        case f: False
        show ?thesis
        proof (rule skip [of ?s o2 "w_count st + o2 + d"])
          show "readTag ch st C off = Inr (?s, [], Tag (Num o2) (Some (Num (w_count st + o2 + d))))"
            using u [of C] body(4) d f by simp
          show "?s = st\<lparr>w_ebmlFound := w_ebmlFound ?s\<rparr>" by simp
          show "0 < w_count st + o2 + d" using cnt o2 o d by simp
          show "int (length C) \<le> w_count st + o2 + d - w_count st" using f by simp
          show "off < w_count st + o2 + d - w_count st" using o2 d by simp
          show "readTag ch st (C @ y) off = Inr (?s, [], Tag (Num (w_count st + o2 + d - w_count st)) None)
             \<and> walkable (C @ y) (w_count st + o2 + d - w_count st)"
            if "int (length (C @ y)) > w_count st + o2 + d - w_count st"
            using that u [of "C @ y"] t d by simp
          show "readTag ch st (C @ y) off = Inr (?s, [], Tag (Num o2) (Some (Num (w_count st + o2 + d))))"
            if "\<not> int (length (C @ y)) > w_count st + o2 + d - w_count st"
            using that u [of "C @ y"] t d by simp
        qed
      qed
    next
      case (Some b)
      with False have leaf: "map_of TAGS ebmlID = Some False" by simp
      show ?thesis
      proof (cases "o2 + d \<le> int (length C)")
        case True
        note ap = tagBody_leaf_append [OF leaf True o2(1) d(2), of ch ?s y]
        from tagBody_leaf [OF leaf True, of ch ?s] show ?thesis
        proof (elim disjE exE conjE)
          fix e assume "tagBody ch ?s C ebmlID o2 (Num d) = Inl e"
          with ap body(4) t d show ?thesis by (intro err [of e]) simp_all
        next
          fix s' pk
          assume "tagBody ch ?s C ebmlID o2 (Num d) = Inr (s', pk, Tag (Num (o2 + d)) None)"
            "w_count s' = w_count ?s" "w_skipUntil s' = w_skipUntil ?s" "w_ebmlFound s' = w_ebmlFound ?s"
          with ap body(4) t d o2 True show ?thesis
            by (intro step [of s' pk "o2 + d"]) simp_all
        qed
      next
        case f: False
        with tagBody_leaf_short [OF leaf, of C o2 d ch ?s] body(4) d show ?thesis
          by (intro short [of ?s]) simp_all
      qed
    qed
  qed
qed

subsection \<open>The loop of \<open>_transform\<close> on a longer buffer and behind a prefix\<close>

lemma tagLoop_idem:
  assumes "readTag ch st C off = Inr (s, pk, r)" and "0 \<le> off" and "s = st\<lparr>w_ebmlFound := w_ebmlFound s\<rparr>"
  shows "tagLoop ch st (C @ y) off out = tagLoop ch s (C @ y) off out"
proof -
  have "readTag ch s (C @ y) off = readTag ch st (C @ y) off"
    using readTag_idem [OF assms(1,2), of y] assms(3) by simp
  then show ?thesis by (subst (1 2) tagLoop.simps) simp
qed

lemma tagLoop_append_raw:
  assumes "walkable (C @ y) off" and "0 \<le> w_count st"
  shows
    "(\<exists>out' e. tagLoop ch st C off out = Some (out', Inl e)
        \<and> tagLoop ch st (C @ y) off out = Some (out', Inl e))
     \<or> (\<exists>out' s o'. tagLoop ch st C off out = Some (out', Inr (s, o'))
        \<and> w_skipUntil s = w_skipUntil st \<and> w_count s = w_count st
        \<and> off \<le> o' \<and> o' \<le> max off (int (length C)) \<and> walkable (C @ y) o'
        \<and> tagLoop ch s C o' out' = Some (out', Inr (s, o'))
        \<and> tagLoop ch st (C @ y) off out = tagLoop ch s (C @ y) o' out')
     \<or> (\<exists>out' s o' t. tagLoop ch st C off out = Some (out', Inr (s\<lparr>w_skipUntil := Some t\<rparr>, o'))
        \<and> w_skipUntil s = w_skipUntil st \<and> w_count s = w_count st
        \<and> off \<le> o' \<and> o' \<le> max off (int (length C)) \<and> 0 < t
        \<and> int (length C) \<le> t - w_count st \<and> o' < t - w_count st
        \<and> (if int (length (C @ y)) > t - w_count st
            then walkable (C @ y) (t - w_count st)
              \<and> tagLoop ch st (C @ y) off out = tagLoop ch s (C @ y) (t - w_count st) out'
            else tagLoop ch st (C @ y) off out = Some (out', Inr (s\<lparr>w_skipUntil := Some t\<rparr>, o'))))"
  (is "?P st off out")
  using assms
proof (induction "nat (int (length C) - off)" arbitrary: off st out rule: less_induct)
  case less
  note w = less.prems(1) and cnt = less.prems(2)
  note o = walkable_nonneg [OF w]
  from w cnt show ?case
  proof (cases rule: readTag_step [where ch = ch])
    case (err e)
    then show ?thesis by (intro disjI1) (simp add: tagLoop_throw)
  next
    case (short s)
    have "tagLoop ch st C off out = Some (out, Inr (s, off))"
      using tagLoop_short [OF short(1)] by simp
    moreover have "tagLoop ch st (C @ y) off out = tagLoop ch s (C @ y) off out"
      using short(1) o short(2) by (rule tagLoop_idem)
    moreover have "tagLoop ch st C off out = tagLoop ch s C off out"
      using tagLoop_idem [OF short(1) o short(2), of "[]"] by simp
    moreover have "w_skipUntil s = w_skipUntil st" "w_count s = w_count st"
      by (subst short(2), simp)+
    ultimately show ?thesis using w by (intro disjI2 disjI1) auto
  next
    case (skip s o2 t)
    have a: "tagLoop ch st C off out = Some (out, Inr (s\<lparr>w_skipUntil := Some t\<rparr>, off))"
      using tagLoop_skip [OF skip(1)] skip(3) by simp
    have b: "w_skipUntil s = w_skipUntil st" "w_count s = w_count st"
      by (subst skip(2), simp)+
    have c: "walkable (C @ y) (t - w_count st)
              \<and> tagLoop ch st (C @ y) off out = tagLoop ch s (C @ y) (t - w_count st) out"
      if l: "int (length (C @ y)) > t - w_count st"
    proof -
      from skip(6) [OF l] have r: "readTag ch st (C @ y) off = Inr (s, [], Tag (Num (t - w_count st)) None)"
        and w': "walkable (C @ y) (t - w_count st)" by simp_all
      from tagLoop_next [OF r] skip(5) o w' show ?thesis by simp
    qed
    have d: "tagLoop ch st (C @ y) off out = Some (out, Inr (s\<lparr>w_skipUntil := Some t\<rparr>, off))"
      if l: "\<not> int (length (C @ y)) > t - w_count st"
      using tagLoop_skip [OF skip(7) [OF l]] skip(3) by simp
    show ?thesis
      apply (intro disjI2)
      apply (rule exI [of _ out], rule exI [of _ s], rule exI [of _ off], rule exI [of _ t])
      using a b c d skip(3,4,5) by simp
  next
    case (step s pk n)
    have n0: "n \<noteq> 0" using step(3) o by simp
    have a: "tagLoop ch st C off out = tagLoop ch s C n (out @ pk)"
      using step(1) n0 by (rule tagLoop_next)
    have b: "tagLoop ch st (C @ y) off out = tagLoop ch s (C @ y) n (out @ pk)"
      using step(2) n0 by (rule tagLoop_next)
    have m: "nat (int (length C) - n) < nat (int (length C) - off)"
      using step(3,4) by simp
    have ih: "?P s n (out @ pk)"
      using m step(5) cnt step(6) by (intro less.hyps) simp_all
    have mx: "max n (int (length C)) \<le> max off (int (length C))" using step(3,4) by simp
    show ?thesis
      using ih step(3) mx unfolding a b step(6) step(7)
      by (elim disjE exE conjE) (force+)
  qed
qed

lemma walkable_sizes:
  assumes "walkable c off" and "readEBMLId c off = Some (ebmlID, o1)"
    and "readTagDataSize c o1 = Some (o2, dl, sl)" and "map_of TAGS ebmlID \<noteq> Some True"
  shows "\<exists>d. dl = Num d \<and> 0 \<le> d"
  using assms(1,4) unfolding walkable_header [OF assms(2,3)] by auto

lemma tagLoop_shift:
  assumes "walkable c off" and "0 \<le> w_count st" and "a = w_count st - int (length pre)"
  shows "tagLoop ch (refield a l r st) (pre @ c) (off + int (length pre)) (out0 @ out) =
     map_option (\<lambda>(out', x). (out0 @ out',
         map_sum id (\<lambda>(s, o'). (refield a l r s, o' + int (length pre))) x))
       (tagLoop ch st c off out)"
  using assms
proof (induction "nat (int (length c) - off)" arbitrary: off st out rule: less_induct)
  case less
  note w = less.prems(1) and cnt = less.prems(2) and a = less.prems(3)
  note o = walkable_nonneg [OF w]
  let ?k = "int (length pre)"
  have sh: "readTag ch (refield a l r st) (pre @ c) (off + ?k)
         = (case readTag ch st c off of
              Inl e \<Rightarrow> Inl e
            | Inr (s, packets, res) \<Rightarrow> Inr (refield a l r s, packets, shift_tag ?k res))"
    using o walkable_sizes [OF w] a by (rule readTag_shift)
  from w have w': "walkable (c @ []) off" by simp
  from w' cnt show ?case
  proof (cases rule: readTag_step [where ch = ch])
    case (err e)
    with sh show ?thesis by (simp add: tagLoop_throw)
  next
    case (short s)
    from short(1) sh have "readTag ch (refield a l r st) (pre @ c) (off + ?k)
        = Inr (refield a l r s, [], TOO_SHORT)" by simp
    from tagLoop_short [OF this] tagLoop_short [OF short(1)] show ?thesis by simp
  next
    case (skip s o2 t)
    from skip(1) sh have "readTag ch (refield a l r st) (pre @ c) (off + ?k)
        = Inr (refield a l r s, [], Tag (js_add (Num o2) (Num ?k)) (Some (Num t)))" by simp
    from tagLoop_skip [OF this] tagLoop_skip [OF skip(1)] skip(3) show ?thesis by simp
  next
    case (step s pk n)
    from step(1) sh have r: "readTag ch (refield a l r st) (pre @ c) (off + ?k)
        = Inr (refield a l r s, pk, Tag (Num (n + ?k)) None)" by (simp add: js_add_def)
    have n0: "n \<noteq> 0" "n + ?k \<noteq> 0" using step(3) o by simp_all
    have m: "nat (int (length c) - n) < nat (int (length c) - off)"
      using step(3,4) by simp
    have wn: "walkable c n" using step(5) by simp
    have ih: "tagLoop ch (refield a l r s) (pre @ c) (n + ?k) (out0 @ (out @ pk)) =
       map_option (\<lambda>(out', x). (out0 @ out',
         map_sum id (\<lambda>(s, o'). (refield a l r s, o' + ?k)) x))
       (tagLoop ch s c n (out @ pk))"
      using m wn cnt a step(6) by (intro less.hyps) simp_all
    from tagLoop_next [OF r n0(2), of "out0 @ out"] tagLoop_next [OF step(1) n0(1), of out] ih
    show ?thesis by simp
  qed
qed

lemma tagLoop_terminates:
  assumes "walkable c off" and "0 \<le> w_count st"
  shows "\<exists>out' x. tagLoop ch st c off out = Some (out', x)"
  using tagLoop_append_raw [of c "[]" off st ch out] assms by auto

lemma tagLoop_fields:
  assumes "walkable c off" and "0 \<le> w_count st" and "tagLoop ch st c off out = Some (out', Inr (s, o'))"
  shows "w_count s = w_count st \<and> w_length s = w_length st \<and> w_remainder s = w_remainder st"
proof -
  have e: "refield (w_count st) (w_length st) (w_remainder st) st = st" by (simp add: refield_def)
  from tagLoop_shift [OF assms(1,2), of "w_count st" "[]" ch "w_length st" "w_remainder st" "[]" out]
  have "s = refield (w_count st) (w_length st) (w_remainder st) s"
    by (simp add: e assms(3))
  then show ?thesis by (metis refield_sel(1,2,3))
qed

subsection \<open>A call of \<open>_transform\<close> as a piece of the walk over the whole stream\<close>

lemma walk_absolute:
  assumes sk: "w_skipUntil st0 = None" and len: "w_length st0 = int (length C)"
    and cnt: "0 \<le> cnt" "w_count st0 = cnt" "cnt \<le> p" "p \<le> int (length C)"
    and w: "walkable (C @ y) p"
  shows "(\<exists>out e. walk ch st0 (drop (nat cnt) C) (p - cnt) = Some (out, Inl e)
            \<and> observed (tagLoop ch (absolute st0) (C @ y) p out0) = Some (out0 @ out, Some e))
       \<or> (\<exists>out st'. walk ch st0 (drop (nat cnt) C) (p - cnt) = Some (out, Inr st')
            \<and> consistent st' C \<and> ahead st' (C @ y)
            \<and> observed (tagLoop ch (absolute st0) (C @ y) p out0) = rest_of ch st' (C @ y) (out0 @ out)
            \<and> rest_of ch st' C (out0 @ out) = Some (out0 @ out, None))"
proof -
  let ?pre = "take (nat cnt) C"
  let ?chunk = "drop (nat cnt) C"
  let ?A = "absolute st0"
  have lp: "int (length ?pre) = cnt" using cnt by simp
  have C: "?pre @ ?chunk = C" by simp
  have wC: "walkable C p" using w by (rule walkable_prefix)
  have "walkable (?pre @ ?chunk) ((p - cnt) + int (length ?pre))" using wC lp by simp
  then have wr: "walkable ?chunk (p - cnt)"
    using walkable_shift [of "p - cnt" ?pre ?chunk] cnt by simp
  have A: "refield 0 0 None st0 = ?A" using sk by (simp add: absolute_def refield_def)
  have Ac: "w_count ?A = 0" "w_skipUntil ?A = None" by (simp_all add: absolute_def)
  have shift: "tagLoop ch ?A C p (out0 @ []) =
     map_option (\<lambda>(out', x). (out0 @ out',
         map_sum id (\<lambda>(s, o'). (refield 0 0 None s, o' + cnt)) x))
       (tagLoop ch st0 ?chunk (p - cnt) [])"
    using tagLoop_shift [OF wr, of st0 0 ?pre ch 0 None out0 "[]"] cnt lp by (simp add: A)
  from tagLoop_terminates [OF wr, of st0 ch "[]"] cnt
  obtain out x where rel: "tagLoop ch st0 ?chunk (p - cnt) [] = Some (out, x)" by auto
  show ?thesis
  proof (cases x)
    case (Inl e)
    with shift rel have a: "tagLoop ch ?A C p out0 = Some (out0 @ out, Inl e)" by simp
    from tagLoop_append_raw [OF w, of ?A ch out0] a Ac
    have "tagLoop ch ?A (C @ y) p out0 = Some (out0 @ out, Inl e)" by auto
    with rel Inl show ?thesis by (intro disjI1) (simp add: walk_def observed_def)
  next
    case (Inr so)
    obtain s o' where so: "so = (s, o')" by (cases so)
    note rel' = rel [unfolded Inr so]
    from tagLoop_fields [OF wr _ rel'] cnt len
    have f: "w_count s = cnt" "w_length s = int (length C)" by simp_all
    let ?st' = "s\<lparr>w_count := cnt + o', w_remainder := Some (js_slice_from ?chunk (Num o'))\<rparr>"
    have wk: "walk ch st0 ?chunk (p - cnt) = Some (out, Inr ?st')"
      using rel' f by (simp add: walk_def)
    have a: "tagLoop ch ?A C p out0 = Some (out0 @ out, Inr (refield 0 0 None s, o' + cnt))"
      using shift rel' by simp
    have abs': "absolute ?st' = (refield 0 0 None s)\<lparr>w_skipUntil := None\<rparr>"
      by (simp add: absolute_def refield_def)
    have A0: "0 \<le> w_count ?A" by (simp add: Ac)
    note raw = tagLoop_append_raw [OF w A0, of ch out0, unfolded a Ac diff_zero]
    from raw consider
      (short) "w_skipUntil (refield 0 0 None s) = None" "p \<le> o' + cnt" "o' + cnt \<le> max p (int (length C))"
        "walkable (C @ y) (o' + cnt)"
        "tagLoop ch (refield 0 0 None s) C (o' + cnt) (out0 @ out)
           = Some (out0 @ out, Inr (refield 0 0 None s, o' + cnt))"
        "tagLoop ch ?A (C @ y) p out0 = tagLoop ch (refield 0 0 None s) (C @ y) (o' + cnt) (out0 @ out)"
    | (skip) s1 t where "refield 0 0 None s = s1\<lparr>w_skipUntil := Some t\<rparr>" "w_skipUntil s1 = None"
        "p \<le> o' + cnt" "o' + cnt \<le> max p (int (length C))" "0 < t" "int (length C) \<le> t"
        "if int (length (C @ y)) > t
            then walkable (C @ y) t
              \<and> tagLoop ch ?A (C @ y) p out0 = tagLoop ch s1 (C @ y) t (out0 @ out)
            else tagLoop ch ?A (C @ y) p out0 = Some (out0 @ out, Inr (s1\<lparr>w_skipUntil := Some t\<rparr>, o' + cnt))"
      by auto
    then show ?thesis
    proof cases
      case short
      have o'0: "0 \<le> o'" "cnt + o' \<le> int (length C)" using short(2,3) cnt by simp_all
      have sk': "w_skipUntil ?st' = None" using short(1) by simp
      have c: "consistent ?st' C"
        using f o'0 cnt sk'
        by (simp add: consistent_def wpending_def js_slice_from_nonneg nat_add_distrib add.commute)
      have ab: "absolute ?st' = refield 0 0 None s"
        using abs' short(1) by (simp add: refield_def)
      have "ahead ?st' (C @ y)" using short(4) sk' by (simp add: ahead_def add.commute)
      moreover have "observed (tagLoop ch ?A (C @ y) p out0) = rest_of ch ?st' (C @ y) (out0 @ out)"
        using short(6) sk' by (simp add: rest_of_def ab add.commute)
      moreover have "rest_of ch ?st' C (out0 @ out) = Some (out0 @ out, None)"
        using short(5) sk' by (simp add: rest_of_def ab add.commute observed_def)
      ultimately show ?thesis using wk c by (intro disjI2) blast
    next
      case (skip s1 t)
      have o'0: "0 \<le> o'" "cnt + o' \<le> int (length C)" using skip(3,4) cnt by simp_all
      have "w_skipUntil (refield 0 0 None s) = Some t" by (subst skip(1)) simp
      then have sk': "w_skipUntil ?st' = Some t" by simp
      have c: "consistent ?st' C"
        using f o'0 cnt sk' skip(5,6)
        by (simp add: consistent_def wpending_def js_slice_from_nonneg nat_add_distrib add.commute)
      have ab: "absolute ?st' = s1"
        unfolding abs' skip(1) using skip(2) by simp
      have "ahead ?st' (C @ y)" using skip(7) sk' by (simp add: ahead_def split: if_splits)
      moreover have "observed (tagLoop ch ?A (C @ y) p out0) = rest_of ch ?st' (C @ y) (out0 @ out)"
        using skip(7) sk' by (simp add: rest_of_def ab observed_def split: if_splits)
      moreover have "rest_of ch ?st' C (out0 @ out) = Some (out0 @ out, None)"
        using skip(6) sk' by (simp add: rest_of_def)
      ultimately show ?thesis using wk c by (intro disjI2) blast
    qed
  qed
qed

lemma absolute_fields [simp]:
  "absolute (s\<lparr>w_length := l\<rparr>) = absolute s"
  "absolute (s\<lparr>w_remainder := r\<rparr>) = absolute s"
  "absolute (s\<lparr>w_count := a\<rparr>) = absolute s"
  "absolute (s\<lparr>w_skipUntil := k\<rparr>) = absolute s"
  by (simp_all add: absolute_def refield_def)

lemma webm_transform_step:
  assumes c: "consistent st P" and a: "ahead st (P @ c @ y)"
  shows "(\<exists>out e. webm_transform ch st c = Some (out, Inl e)
            \<and> rest_of ch st (P @ c @ y) out0 = Some (out0 @ out, Some e))
       \<or> (\<exists>out st'. webm_transform ch st c = Some (out, Inr st')
            \<and> consistent st' (P @ c) \<and> ahead st' (P @ c @ y)
            \<and> rest_of ch st (P @ c @ y) out0 = rest_of ch st' (P @ c @ y) (out0 @ out)
            \<and> rest_of ch st' (P @ c) (out0 @ out) = Some (out0 @ out, None))"
proof -
  let ?st2 = "st\<lparr>w_length := w_length st + int (length c), w_remainder := None\<rparr>"
  let ?C = "P @ c"
  from c have inv: "w_length st = int (length P)" "0 \<le> w_count st" "w_count st \<le> int (length P)"
    "wpending st = drop (nat (w_count st)) P"
    by (simp_all add: consistent_def)
  have chunk: "(case w_remainder st of Some r \<Rightarrow> r @ c | None \<Rightarrow> c) = drop (nat (w_count st)) ?C"
    using inv(3,4) by (simp add: wpending_def split: option.splits)
  show ?thesis
  proof (cases "w_skipUntil st")
    case None
    have t: "webm_transform ch st c = walk ch ?st2 (drop (nat (w_count st)) ?C) (w_count st - w_count st)"
      using None chunk by (simp add: webm_transform_def Let_def)
    have w: "walkable (?C @ y) (w_count st)" using a None by (simp add: ahead_def)
    have r: "rest_of ch st (P @ c @ y) out0 = observed (tagLoop ch (absolute st) (P @ c @ y) (w_count st) out0)"
      using None by (simp add: rest_of_def)
    from walk_absolute [of ?st2 ?C "w_count st" "w_count st" y ch out0] None inv w
    show ?thesis unfolding t r by simp
  next
    case (Some t)
    with c have t: "0 < t" "int (length P) \<le> t" by (simp_all add: consistent_def)
    show ?thesis
    proof (cases "int (length ?C) > t")
      case True
      let ?st3 = "?st2\<lparr>w_skipUntil := None\<rparr>"
      have tr: "webm_transform ch st c = walk ch ?st3 (drop (nat (w_count st)) ?C) (t - w_count st)"
        using Some chunk True t inv by (simp add: webm_transform_def Let_def)
      have w: "walkable (?C @ y) t" using a Some True by (simp add: ahead_def)
      have r: "rest_of ch st (P @ c @ y) out0 = observed (tagLoop ch (absolute st) (P @ c @ y) t out0)"
        using Some True by (simp add: rest_of_def)
      from walk_absolute [of ?st3 ?C "w_count st" t y ch out0] inv w t True
      show ?thesis unfolding tr r by simp
    next
      case False
      let ?st' = "?st2\<lparr>w_count := w_count st + int (length (drop (nat (w_count st)) ?C))\<rparr>"
      have tr: "webm_transform ch st c = Some ([], Inr ?st')"
        using Some chunk False t inv by (simp add: webm_transform_def Let_def)
      have cn: "w_count st + int (length (drop (nat (w_count st)) ?C)) = int (length ?C)"
        using inv by simp
      have "consistent ?st' ?C"
        using Some t False inv unfolding cn by (simp add: consistent_def wpending_def)
      moreover have "ahead ?st' (?C @ y)" using a Some by (simp add: ahead_def)
      moreover have "rest_of ch st (?C @ y) out0 = rest_of ch ?st' (?C @ y) (out0 @ [])"
        using Some by (simp add: rest_of_def)
      moreover have "rest_of ch ?st' ?C (out0 @ []) = Some (out0 @ [], None)"
        using Some False by (simp add: rest_of_def)
      ultimately show ?thesis using tr by (intro disjI2) (metis append_assoc)
    qed
  qed
qed

lemma webm_feed_rest:
  assumes "consistent st P" and "ahead st (P @ concat (c # cs))"
  shows "map_option (\<lambda>(out, e). (out0 @ out, e)) (observed (webm_feed ch st (c # cs)))
           = rest_of ch st (P @ concat (c # cs)) out0"
  using assms
proof (induction cs arbitrary: st P c out0)
  case Nil
  from webm_transform_step [of st P c "[]" ch out0] Nil.prems show ?case
    by (auto simp: observed_def)
next
  case (Cons d ds)
  from webm_transform_step [of st P c "concat (d # ds)" ch out0] Cons.prems
  consider
    (err) out e where "webm_transform ch st c = Some (out, Inl e)"
      "rest_of ch st (P @ c @ concat (d # ds)) out0 = Some (out0 @ out, Some e)"
  | (ok) out st' where "webm_transform ch st c = Some (out, Inr st')"
      "consistent st' (P @ c)" "ahead st' (P @ c @ concat (d # ds))"
      "rest_of ch st (P @ c @ concat (d # ds)) out0 = rest_of ch st' (P @ c @ concat (d # ds)) (out0 @ out)"
    by auto
  then show ?case
  proof cases
    case err
    then show ?thesis by (simp add: observed_def)
  next
    case ok
    have ih: "map_option (\<lambda>(out', e). ((out0 @ out) @ out', e)) (observed (webm_feed ch st' (d # ds)))
           = rest_of ch st' ((P @ c) @ concat (d # ds)) (out0 @ out)"
      using ok(2,3) by (intro Cons.IH) simp_all
    have "map_option (\<lambda>(out, e). (out0 @ out, e)) (observed (webm_feed ch st (c # d # ds)))
        = map_option (\<lambda>(out', e). ((out0 @ out) @ out', e)) (observed (webm_feed ch st' (d # ds)))"
      unfolding webm_feed.simps(2) [of ch st c "d # ds"] ok(1)
      by (cases "webm_feed ch st' (d # ds)") (auto simp: observed_def)
    with ih ok(4) show ?thesis by simp
  qed
qed

lemma consistent_init: "consistent webm_init []"
  by (simp add: consistent_def webm_init_def wpending_def)

lemma webm_feed_chunks:
  assumes "walkable (concat (c # cs)) 0"
  shows "observed (webm_feed ch webm_init (c # cs)) = observed (webm_feed ch webm_init [concat (c # cs)])"
    and "webm_feed ch webm_init (c # cs) \<noteq> None"
proof -
  let ?S = "concat (c # cs)"
  have a: "ahead webm_init ([] @ concat (c # cs))" "ahead webm_init ([] @ concat [?S])"
    using assms by (simp_all add: ahead_def webm_init_def)
  have e: "(\<lambda>(out, e). ([] @ out, e)) = (\<lambda>x :: buffer list \<times> webm_error option. x)" by auto
  from webm_feed_rest [OF consistent_init a(1), of "[]" ch]
  have 1: "observed (webm_feed ch webm_init (c # cs)) = rest_of ch webm_init ?S []"
    unfolding e by (simp add: option.map_ident)
  from webm_feed_rest [OF consistent_init a(2), of "[]" ch]
  have 2: "observed (webm_feed ch webm_init [?S]) = rest_of ch webm_init ?S []"
    unfolding e by (simp add: option.map_ident)
  from 1 2 show "observed (webm_feed ch webm_init (c # cs)) = observed (webm_feed ch webm_init [?S])"
    by simp
  from tagLoop_terminates [OF assms, of "absolute webm_init" ch "[]"]
  have "rest_of ch webm_init ?S [] \<noteq> None"
    by (auto simp: rest_of_def webm_init_def absolute_def observed_def)
  with 1 show "webm_feed ch webm_init (c # cs) \<noteq> None" by (auto simp: observed_def)
qed

subsection \<open>The descriptor in progress\<close>

lemma updateTrack_inv: "track_inv (updateTrack ebmlID data s)"
  by (auto simp: updateTrack_def track_inv_def Let_def)

lemma tagBody_inv:
  "track_inv s \<Longrightarrow> tagBody ch s C ebmlID o2 dl = Inr (s', pk, r) \<Longrightarrow> track_inv s'"
  using updateTrack_inv [of ebmlID "js_slice C (Num o2) (js_add (Num o2) dl)" s]
  by (auto simp: tagBody_def Let_def split: option.splits bool.splits if_splits sum.splits)

lemma track_inv_found [simp]: "track_inv (s\<lparr>w_ebmlFound := b\<rparr>) = track_inv s"
  by (simp add: track_inv_def)

lemma readTag_inv:
  assumes "track_inv st" and "readTag ch st C off = Inr (s, pk, r)"
  shows "track_inv s"
proof (cases rule: readTag_cases [of C off ch st])
  case (body ebmlID o1 o2 dl sl)
  with assms tagBody_inv [of "st\<lparr>w_ebmlFound := True\<rparr>" ch C ebmlID o2 dl s pk r] show ?thesis by simp
qed (use assms in auto)

lemma tagLoop_inv:
  assumes "tagLoop ch st C off out = Some (out', Inr (s, o'))" and "track_inv st"
  shows "track_inv s"
proof -
  have "track_inv st \<longrightarrow> (case y of (out', Inl e) \<Rightarrow> True | (out', Inr (s, o')) \<Rightarrow> track_inv s)"
    if "tagLoop ch st C off out = Some y" for y
  proof (rule tagLoop.raw_induct [where P = "\<lambda>ch st C off out y.
      track_inv st \<longrightarrow> (case y of (out', Inl e) \<Rightarrow> True | (out', Inr (s, o')) \<Rightarrow> track_inv s)",
      OF _ that], goal_cases)
    case (1 f ch st C off out y)
    show ?case
    proof
      assume inv: "track_inv st"
      show "case y of (out', Inl e) \<Rightarrow> True | (out', Inr (s, o')) \<Rightarrow> track_inv s"
      proof (cases "readTag ch st C off")
        case (Inl e)
        with 1(2) show ?thesis by auto
      next
        case (Inr q)
        obtain s1 pk r where q: "q = (s1, pk, r)" by (cases q)
        note rt = Inr [unfolded q]
        note i1 = readTag_inv [OF inv rt]
        show ?thesis
        proof (cases r)
          case TOO_SHORT
          with 1(2) rt i1 show ?thesis by auto
        next
          case (Tag off' skip)
          show ?thesis
          proof (cases "case skip of Some t \<Rightarrow> truthy t | None \<Rightarrow> False")
            case True
            with 1(2) rt Tag i1 show ?thesis by (auto simp: track_inv_def)
          next
            case False
            show ?thesis
            proof (cases "truthy off'")
              case t: True
              with 1(2) rt Tag False
              have "f ch s1 C (case off' of Num n \<Rightarrow> n | NaN \<Rightarrow> 0) (out @ pk) = Some y" by simp
              from 1(1) [OF this] i1 show ?thesis by blast
            next
              case f: False
              with 1(2) rt Tag False i1 show ?thesis by auto
            qed
          qed
        qed
      qed
    qed
  qed
  from this [OF assms(1)] assms(2) show ?thesis by simp
qed

lemma webm_transform_inv:
  assumes "webm_transform ch st c = Some (out, Inr st')" and "track_inv st"
  shows "track_inv st'"
proof -
  have w: "track_inv s'" if "walk ch s C off = Some (out, Inr s')" "track_inv s" for s s' C off
  proof -
    from that(1) obtain s1 o' where "tagLoop ch s C off [] = Some (out, Inr (s1, o'))"
      and s': "s' = s1\<lparr>w_count := w_count s1 + o', w_remainder := Some (js_slice_from C (Num o'))\<rparr>"
      by (auto simp: walk_def split: option.splits sum.splits)
    from tagLoop_inv [OF this(1) that(2)] show ?thesis by (simp add: s' track_inv_def)
  qed
  have i: "track_inv (st\<lparr>w_length := l, w_remainder := r, w_skipUntil := k\<rparr>)"
    "track_inv (st\<lparr>w_length := l, w_remainder := r\<rparr>)"
    "track_inv (st\<lparr>w_length := l, w_remainder := r, w_count := a\<rparr>)" for l r k a
    using assms(2) by (simp_all add: track_inv_def)
  show ?thesis
  proof (cases "w_skipUntil st")
    case None
    with assms(1) show ?thesis by (auto simp: webm_transform_def Let_def intro: w i)
  next
    case (Some t)
    show ?thesis
    proof (cases "t \<noteq> 0 \<and> w_length st + int (length c) > t")
      case True
      with Some assms(1) show ?thesis by (auto simp: webm_transform_def Let_def intro: w i)
    next
      case False
      with Some assms(1) show ?thesis
        by (cases "t = 0") (auto simp: webm_transform_def Let_def intro: w i)
    qed
  qed
qed

lemma webm_feed_inv:
  "webm_feed ch st cs = Some (out, Inr st') \<Longrightarrow> track_inv st \<Longrightarrow> track_inv st'"
proof (induction cs arbitrary: st out)
  case Nil
  then show ?case by simp
next
  case (Cons c cs)
  from Cons.prems(1) obtain o1 s1 o2 where
    "webm_transform ch st c = Some (o1, Inr s1)" "webm_feed ch s1 cs = Some (o2, Inr st')"
    by (auto split: option.splits sum.splits)
  from Cons.IH [OF this(2) webm_transform_inv [OF this(1) Cons.prems(2)]] show ?case .
qed

lemma track_inv_init: "track_inv webm_init"
  by (simp add: track_inv_def webm_init_def no_track_def)

subsection \<open>Elements whose body has not arrived\<close>







subsection \<open>Blocks and tracks\<close>

text \<open>
  C6. When the walker, having seen the root element, reads a simple block whose body is in
  the buffer while no audio track is resolved (and the descriptor in progress is not a
  complete audio track: by \<open>webm_feed_inv\<close> and \<open>tagLoop_inv\<close> this is so in every state
  that a fresh walker reaches), \<open>_readTag\<close> throws the error "No audio track in this webm!",
  and so does the loop of \<open>_transform\<close>.
\<close>

theorem C6_block_before_track:
  assumes "w_ebmlFound st" and "w_track st = None"
    and "\<not> (t_type (w_incompleteTrack st) = Some 2 \<and> t_number (w_incompleteTrack st) \<noteq> None)"
    and "readEBMLId chunk offset = Some (SIMPLE_BLOCK_ID, offset1)"
    and "readTagDataSize chunk offset1 = Some (offset2, dataLength, sizeLength)"
    and "\<not> js_gt (js_add (Num offset2) dataLength) (Num (int (length chunk)))"
  shows "readTag checkHead st chunk offset = Inl NoAudioTrack
    \<and> tagLoop checkHead st chunk offset out = Some (out, Inl NoAudioTrack)"
proof -
  have t: "map_of TAGS SIMPLE_BLOCK_ID = Some False"
    by (simp add: TAGS_def EBML_ID_def TRACK_ENTRY_ID_def TRACK_NUMBER_ID_def TRACK_TYPE_ID_def
        SIMPLE_BLOCK_ID_def CODEC_PRIVATE_ID_def)
  have u: "w_track (updateTrack SIMPLE_BLOCK_ID d (st\<lparr>w_ebmlFound := True\<rparr>)) = None" for d
    using assms(2,3)
    by (simp add: updateTrack_def Let_def SIMPLE_BLOCK_ID_def TRACK_ENTRY_ID_def
        TRACK_NUMBER_ID_def TRACK_TYPE_ID_def)
  have "readTag checkHead st chunk offset = Inl NoAudioTrack"
    using assms(1,4,5,6) t u
    by (simp add: readTag_def Let_def SIMPLE_BLOCK_ID_def CODEC_PRIVATE_ID_def)
  then show ?thesis by (simp add: tagLoop_throw)
qed

theorem C6_block_before_track_witness:
  "readTag opus_checkHead rooted [0xa3, 0x85, 0x81, 0, 0, 0x80, 0xaa] 0 = Inl NoAudioTrack
   \<and> tagLoop opus_checkHead rooted [0xa3, 0x85, 0x81, 0, 0, 0x80, 0xaa] 0 [] = Some ([], Inl NoAudioTrack)
   \<and> webm_feed opus_checkHead webm_init
        [[0x1a, 0x45, 0xdf, 0xa3, 0x80], [0xa3, 0x85, 0x81, 0, 0, 0x80, 0xaa]]
       = Some ([], Inl NoAudioTrack)"
proof -
  let ?chunk = "[0xa3, 0x85, 0x81, 0, 0, 0x80, 0xaa] :: buffer"
  have a: "w_ebmlFound rooted" "w_track rooted = None"
    "\<not> (t_type (w_incompleteTrack rooted) = Some 2 \<and> t_number (w_incompleteTrack rooted) \<noteq> None)"
    by (simp_all add: rooted_def no_track_def)
  have b: "readEBMLId ?chunk 0 = Some (SIMPLE_BLOCK_ID, 1)" by code_simp
  have c: "readTagDataSize ?chunk 1 = Some (2, Num 5, 1)" by code_simp
  have d: "\<not> js_gt (js_add (Num 2) (Num 5)) (Num (int (length ?chunk)))" by code_simp
  have e: "webm_feed opus_checkHead webm_init
        [[0x1a, 0x45, 0xdf, 0xa3, 0x80], [0xa3, 0x85, 0x81, 0, 0, 0x80, 0xaa]]
       = Some ([], Inl NoAudioTrack)" by code_simp
  from C6_block_before_track [OF a b c d] e show ?thesis by simp
qed

text \<open>
  C8. \<open>ae\<close> (track entry) is a container tag, so \<open>_readTag\<close> returns after the size field:
  it leaves the descriptor in progress and the resolved track as they are, and the branch
  that clears the descriptor is never run. In the stream \<open>two_entries\<close> the number 1 of the
  first entry and the type 2 of the second entry become the audio track, and the block of
  track 1 is pushed.
\<close>

theorem C8_track_entry_never_resets:
  "map_of TAGS TRACK_ENTRY_ID = Some True
   \<and> (readEBMLId chunk offset = Some (TRACK_ENTRY_ID, offset1) \<and>
      readTag checkHead st chunk offset = Inr (st', packets, r) \<longrightarrow>
        w_incompleteTrack st' = w_incompleteTrack st \<and> w_track st' = w_track st \<and> packets = [] \<and>
        (r = TOO_SHORT \<or>
         (\<exists>offset2 dataLength sizeLength.
            readTagDataSize chunk offset1 = Some (offset2, dataLength, sizeLength) \<and>
            r = Tag (Num offset2) None)))
   \<and> webm_feed opus_checkHead webm_init [two_entries] =
       Some ([[0x11]],
         Inr \<lparr>w_remainder = Some [], w_length = 40, w_count = 40, w_skipUntil = None,
              w_track = Some \<lparr>t_number = Some 1, t_type = Some 2\<rparr>,
              w_incompleteTrack = \<lparr>t_number = Some 1, t_type = Some 2\<rparr>, w_ebmlFound = True\<rparr>)"
proof (intro conjI impI)
  show t: "map_of TAGS TRACK_ENTRY_ID = Some True"
    by (simp add: TAGS_def EBML_ID_def TRACK_ENTRY_ID_def)
  show "webm_feed opus_checkHead webm_init [two_entries] =
       Some ([[0x11]],
         Inr \<lparr>w_remainder = Some [], w_length = 40, w_count = 40, w_skipUntil = None,
              w_track = Some \<lparr>t_number = Some 1, t_type = Some 2\<rparr>,
              w_incompleteTrack = \<lparr>t_number = Some 1, t_type = Some 2\<rparr>, w_ebmlFound = True\<rparr>)"
    by code_simp
  assume a: "readEBMLId chunk offset = Some (TRACK_ENTRY_ID, offset1) \<and>
      readTag checkHead st chunk offset = Inr (st', packets, r)"
  then have b: "st' = st\<lparr>w_ebmlFound := True\<rparr> \<and> packets = [] \<and>
        (r = TOO_SHORT \<or>
         (\<exists>offset2 dataLength sizeLength.
            readTagDataSize chunk offset1 = Some (offset2, dataLength, sizeLength) \<and>
            r = Tag (Num offset2) None))"
    using t by (auto simp: readTag_def Let_def split: if_splits option.splits)
  from b show "w_incompleteTrack st' = w_incompleteTrack st" by simp
  from b show "w_track st' = w_track st" by simp
  from b show "packets = []" by simp
  from b show "r = TOO_SHORT \<or>
         (\<exists>offset2 dataLength sizeLength.
            readTagDataSize chunk offset1 = Some (offset2, dataLength, sizeLength) \<and>
            r = Tag (Num offset2) None)" by simp
qed

theorem C8_track_entry_never_resets_witness:
  "readTag opus_checkHead
     (webm_init\<lparr>w_ebmlFound := True, w_incompleteTrack := \<lparr>t_number = Some 1, t_type = Some 1\<rparr>\<rparr>)
     [0xae, 0x86, 0x83, 0x81, 0x02, 0xd7, 0x81, 0x02] 0
   = Inr (webm_init\<lparr>w_ebmlFound := True, w_incompleteTrack := \<lparr>t_number = Some 1, t_type = Some 1\<rparr>\<rparr>,
          [], Tag (Num 2) None)
   \<and> readEBMLId [0xae, 0x86, 0x83, 0x81, 0x02, 0xd7, 0x81, 0x02] 0 = Some (TRACK_ENTRY_ID, 1)
   \<and> w_incompleteTrack
        (webm_init\<lparr>w_ebmlFound := True, w_incompleteTrack := \<lparr>t_number = Some 1, t_type = Some 1\<rparr>\<rparr>)
       = \<lparr>t_number = Some 1, t_type = Some 1\<rparr>"
proof -
  let ?st = "webm_init\<lparr>w_ebmlFound := True, w_incompleteTrack := \<lparr>t_number = Some 1, t_type = Some 1\<rparr>\<rparr>"
  let ?chunk = "[0xae, 0x86, 0x83, 0x81, 0x02, 0xd7, 0x81, 0x02] :: buffer"
  have a: "readEBMLId ?chunk 0 = Some (TRACK_ENTRY_ID, 1)" by code_simp
  have b: "readTag opus_checkHead ?st ?chunk 0 = Inr (?st, [], Tag (Num 2) None)" by code_simp
  from C8_track_entry_never_resets [of ?chunk 0 1 opus_checkHead ?st ?st "[]" "Tag (Num 2) None"] a b
  show ?thesis by simp
qed

subsection \<open>Teardown\<close>

text \<open>
  C7. Teardown is to discard all retained state and to emit nothing. \<open>_final\<close> and
  \<open>_destroy\<close> emit nothing, and \<open>OggDemuxer.cleanup\<close> resets every field of the reader (held
  bytes, head packet, pinned bitstream). \<open>WebmBaseDemuxer.cleanup\<close> resets the held bytes and
  the descriptor in progress only: the resolved track, the pending skip target, the byte counts
  and the root-tag flag keep their values. After \<open>_final\<close> they are still there in
  \<open>skipping_state\<close>, the state to which the stream shown leads.
\<close>

theorem C7_webm_cleanup_keeps_state:
  "webm_feed opus_checkHead webm_init
      [[0x1a, 0x45, 0xdf, 0xa3, 0x80, 0xd7, 0x81, 0x01, 0x83, 0x81, 0x02, 0xec, 0x85, 0x00]]
     = Some ([], Inr skipping_state)
   \<and> webm_final skipping_state =
        (\<lparr>w_remainder = None, w_length = 14, w_count = 11,
          w_skipUntil = Some 18, w_track = Some \<lparr>t_number = Some 1, t_type = Some 2\<rparr>,
          w_incompleteTrack = \<lparr>t_number = None, t_type = None\<rparr>, w_ebmlFound = True\<rparr>, [])
   \<and> ogg_final st = (ogg_init, []) \<and> ogg_destroy st = (ogg_init, [])
   \<and> webm_final w = (w\<lparr>w_remainder := None, w_incompleteTrack := no_track\<rparr>, [])
   \<and> webm_destroy w = (w\<lparr>w_remainder := None, w_incompleteTrack := no_track\<rparr>, [])
   \<and> w_track (fst (webm_final w)) = w_track w
   \<and> w_skipUntil (fst (webm_final w)) = w_skipUntil w
   \<and> w_length (fst (webm_final w)) = w_length w
   \<and> w_count (fst (webm_final w)) = w_count w
   \<and> w_ebmlFound (fst (webm_final w)) = w_ebmlFound w"
proof -
  have "webm_feed opus_checkHead webm_init
      [[0x1a, 0x45, 0xdf, 0xa3, 0x80, 0xd7, 0x81, 0x01, 0x83, 0x81, 0x02, 0xec, 0x85, 0x00]]
     = Some ([], Inr skipping_state)
   \<and> webm_final skipping_state =
        (\<lparr>w_remainder = None, w_length = 14, w_count = 11,
          w_skipUntil = Some 18, w_track = Some \<lparr>t_number = Some 1, t_type = Some 2\<rparr>,
          w_incompleteTrack = \<lparr>t_number = None, t_type = None\<rparr>, w_ebmlFound = True\<rparr>, [])"
    by code_simp
  then show ?thesis
    by (simp add: ogg_final_def ogg_destroy_def ogg_cleanup_def ogg_init_def
      webm_final_def webm_destroy_def webm_cleanup_def)
qed

section \<open>Properties of both demuxers\<close>

subsection \<open>Waiting for data\<close>



subsection \<open>Chunk boundaries\<close>

text \<open>
  C1. A fresh demuxer fed a stream in chunks, however the stream is cut (in particular one
  byte per call), shows the consumer what it shows when fed the stream in one call. For the
  Ogg reader this holds for every stream, and the fields after the last call agree as well.
  For the WebM walker, with any head hook, it holds for every stream that is walkable: the
  run returns, and the packets pushed and the error thrown, if any, agree. An unknown element
  is then skipped across as many chunks as its body spans, as in \<open>skip_stream\<close> fed byte by
  byte.
\<close>

theorem C1_chunking:
  "ogg_feed ogg_init (c # cs) = ogg_feed ogg_init [concat (c # cs)]
   \<and> ogg_feed ogg_init (map (\<lambda>x. [x]) (b # bs)) = ogg_feed ogg_init [b # bs]
   \<and> (walkable (concat (c # cs)) 0 \<longrightarrow>
        webm_feed checkHead webm_init (c # cs) \<noteq> None \<and>
        observed (webm_feed checkHead webm_init (c # cs))
          = observed (webm_feed checkHead webm_init [concat (c # cs)]))
   \<and> (walkable (b # bs) 0 \<longrightarrow>
        observed (webm_feed checkHead webm_init (map (\<lambda>x. [x]) (b # bs)))
          = observed (webm_feed checkHead webm_init [b # bs]))"
proof (intro conjI impI)
  show "ogg_feed ogg_init (c # cs) = ogg_feed ogg_init [concat (c # cs)]"
    by (simp only: ogg_feed_concat) simp
  have m: "concat (map (\<lambda>x. [x]) xs) = xs" for xs :: buffer by (induction xs) simp_all
  have "ogg_feed ogg_init ([b] # map (\<lambda>x. [x]) bs) = ogg_transform ogg_init (concat ([b] # map (\<lambda>x. [x]) bs))"
    by (rule ogg_feed_concat)
  also have "\<dots> = ogg_feed ogg_init [b # bs]"
    using ogg_feed_concat [of ogg_init "b # bs" "[]"] by (simp add: m)
  finally show "ogg_feed ogg_init (map (\<lambda>x. [x]) (b # bs)) = ogg_feed ogg_init [b # bs]" by simp
  {
    assume w: "walkable (concat (c # cs)) 0"
    from webm_feed_chunks [OF w, of checkHead]
    show "webm_feed checkHead webm_init (c # cs) \<noteq> None"
      and "observed (webm_feed checkHead webm_init (c # cs))
          = observed (webm_feed checkHead webm_init [concat (c # cs)])"
      by simp_all
  }
  {
    assume w: "walkable (b # bs) 0"
    then have "walkable (concat ([b] # map (\<lambda>x. [x]) bs)) 0" by (simp add: m)
    from webm_feed_chunks(1) [OF this, of checkHead]
    show "observed (webm_feed checkHead webm_init (map (\<lambda>x. [x]) (b # bs)))
          = observed (webm_feed checkHead webm_init [b # bs])"
      by (simp add: m)
  }
qed

theorem C1_chunking_witness:
  "walkable skip_stream 0
   \<and> observed (webm_feed opus_checkHead webm_init (map (\<lambda>x. [x]) skip_stream)) = Some ([[0xaa]], None)
   \<and> observed (webm_feed opus_checkHead webm_init [take 12 skip_stream, drop 12 skip_stream])
        = Some ([[0xaa]], None)
   \<and> observed (webm_feed opus_checkHead webm_init [skip_stream]) = Some ([[0xaa]], None)
   \<and> ogg_feed ogg_init (map (\<lambda>x. [x]) (head_page @ tags_page)) = ogg_feed ogg_init [head_page @ tags_page]"
proof -
  have w: "walkable skip_stream 0" by code_simp
  have e: "observed (webm_feed opus_checkHead webm_init [skip_stream]) = Some ([[0xaa]], None)"
    by code_simp
  have s: "skip_stream = 0x1a # tl skip_stream" by (simp add: skip_stream_def)
  have c: "concat (take 12 skip_stream # [drop 12 skip_stream]) = skip_stream" by simp
  have h: "head_page @ tags_page = 0x4f # tl (head_page @ tags_page)"
    by (simp add: head_page_def ascii_def)
  from C1_chunking [of "take 12 skip_stream" "[drop 12 skip_stream]" "0x1a" "tl skip_stream" opus_checkHead]
    C1_chunking [of "[]" "[]" "0x4f" "tl (head_page @ tags_page)" opus_checkHead]
    w e
  show ?thesis
    unfolding c s [symmetric] h [symmetric] by simp
qed

end
